theory Spec2Isabelle
  imports Complex_Main "HOL-Library.Sublist"
begin

section \<open>Shared vocabulary\<close>

text \<open>
  Both scripts are Python. A \<open>str\<close> is modelled as a \<open>string\<close> whose characters are
  the code points below 256, a \<open>bytes\<close> object as a list of 8-bit characters, an \<open>int\<close>
  as \<open>int\<close>. Exceptions are values of \<open>error\<close>; a call that may raise returns
  \<open>error + 'a\<close> with \<open>Inl\<close> for the exception.
\<close>

type_synonym path = string
type_synonym bytes = string

datatype error =
    ValueError
  | AssertionError
  | OverflowError
  | FileNotFoundError
  | CouldntDecodeError

section \<open>Pipeline A: \<open>process.py\<close>\<close>

subsection \<open>Grouping loop (lines 114-115)\<close>

text \<open>
  \<open>for i in range(0, len(sorted_files), files_per_group)\<close>: the start indices the
  loop visits. \<open>range\<close> with step 0 raises \<open>ValueError\<close>; that is the wrapper
  \<open>group_starts\<close>. The recursion follows the iteration of \<open>range\<close>: emit \<open>i\<close> while
  \<open>i < stop\<close>, then advance by the step.
\<close>

function range_from :: "nat \<Rightarrow> nat \<Rightarrow> nat \<Rightarrow> nat list" where
  "range_from i stop step =
     (if step = 0 \<or> stop \<le> i then [] else i # range_from (i + step) stop step)"
  by pat_completeness auto
termination
  by (relation "measure (\<lambda>(i, stop, step). stop - i)") auto

definition group_starts :: "nat \<Rightarrow> nat \<Rightarrow> error + nat list" where
  "group_starts stop step = (if step = 0 then Inl ValueError else Inr (range_from 0 stop step))"

text \<open>\<open>sorted_files[i:i + files_per_group]\<close>: a Python slice never raises.\<close>

definition slice_files :: "'a list \<Rightarrow> nat \<Rightarrow> nat \<Rightarrow> 'a list" where
  "slice_files xs i j = take (j - i) (drop i xs)"

definition grouper :: "'a list \<Rightarrow> nat \<Rightarrow> error + 'a list list" where
  "grouper sorted_files files_per_group =
     (case group_starts (length sorted_files) files_per_group of
        Inl e \<Rightarrow> Inl e
      | Inr starts \<Rightarrow>
          Inr (map (\<lambda>i. slice_files sorted_files i (i + files_per_group)) starts))"

subsection \<open>Filesystem, decoders and the audio library\<close>

text \<open>
  The filesystem is a partial map from paths to contents. Opening a missing path raises;
  \<open>os.remove\<close> deletes an existing path and raises on a missing one. Writes succeed.

  \<open>pydub\<close> is an external library. Its decoders are parameters of the model: the
  result of \<open>AudioSegment.from_wav\<close> and \<open>AudioSegment.from_raw\<close> is a function of the
  file's contents (\<open>None\<close>: the decoder raises). A decoded \<open>AudioSegment\<close> carries the
  three attributes \<open>normalize\<close> inspects and its sample data. The three setters are
  parameters too (\<open>Inl\<close>: the setter raises).
\<close>

type_synonym fs = "path \<rightharpoonup> bytes"

record segment =
  frame_rate :: int
  channels :: int
  sample_width :: int
  raw_data :: bytes

record codec =
  from_wav :: "bytes \<Rightarrow> segment option"
  from_raw :: "bytes \<Rightarrow> int \<Rightarrow> int \<Rightarrow> int \<Rightarrow> segment option"

record pydub =
  set_frame_rate :: "segment \<Rightarrow> int \<Rightarrow> error + segment"
  set_channels :: "segment \<Rightarrow> int \<Rightarrow> error + segment"
  set_sample_width :: "segment \<Rightarrow> int \<Rightarrow> error + segment"

text \<open>What an invocation does to the outside world, in order.\<close>

datatype event =
    Ev_from_wav path
  | Ev_read path
  | Ev_write path bytes
  | Ev_remove path
  | Ev_from_raw path

definition TARGET_SR :: int where "TARGET_SR = 32000"
definition TARGET_CHANNELS :: int where "TARGET_CHANNELS = 1"
definition TARGET_WIDTH :: int where "TARGET_WIDTH = 2"
definition input_dir :: string where "input_dir = ''Data''"
definition output_dir :: string where "output_dir = ''combinedall''"
definition files_per_group :: nat where "files_per_group = 200"

definition AudioSegment_from_wav :: "codec \<Rightarrow> fs \<Rightarrow> path \<Rightarrow> error + segment" where
  "AudioSegment_from_wav cd files p =
     (case files p of
        None \<Rightarrow> Inl FileNotFoundError
      | Some b \<Rightarrow> (case from_wav cd b of None \<Rightarrow> Inl CouldntDecodeError | Some seg \<Rightarrow> Inr seg))"

definition AudioSegment_from_raw ::
  "codec \<Rightarrow> fs \<Rightarrow> path \<Rightarrow> int \<Rightarrow> int \<Rightarrow> int \<Rightarrow> error + segment" where
  "AudioSegment_from_raw cd files p sample_width_arg frame_rate_arg channels_arg =
     (case files p of
        None \<Rightarrow> Inl FileNotFoundError
      | Some b \<Rightarrow>
          (case from_raw cd b sample_width_arg frame_rate_arg channels_arg of
             None \<Rightarrow> Inl CouldntDecodeError
           | Some seg \<Rightarrow> Inr seg))"

definition os_remove :: "fs \<Rightarrow> path \<Rightarrow> error + fs" where
  "os_remove files p = (if files p = None then Inl FileNotFoundError else Inr (files(p := None)))"

text \<open>\<open>try: os.remove(trimmed_path) except Exception: pass\<close>\<close>

definition remove_quietly :: "fs \<Rightarrow> path \<Rightarrow> fs" where
  "remove_quietly files p = (case os_remove files p of Inl e \<Rightarrow> files | Inr files' \<Rightarrow> files')"

text \<open>
  \<open>blob.find(b"RIFF")\<close>: the lowest index at which the pattern starts, or \<open>-1\<close>.
\<close>

fun find_from :: "bytes \<Rightarrow> bytes \<Rightarrow> nat \<Rightarrow> int" where
  "find_from sub [] i = (if sub = [] then int i else - 1)"
| "find_from sub (x # xs) i =
     (if prefix sub (x # xs) then int i else find_from sub xs (Suc i))"

definition bytes_find :: "bytes \<Rightarrow> bytes \<Rightarrow> int" where
  "bytes_find blob sub = find_from sub blob 0"

definition trimmed_path_of :: "path \<Rightarrow> path" where
  "trimmed_path_of p = p @ ''.__trimmed__.wav''"

subsection \<open>\<open>robust_load_audio\<close> (lines 32-75)\<close>

text \<open>
  Tier 2, lines 45-68. The result is the decoded segment when the tier returns one
  (\<open>None\<close>: control falls through to tier 3), the filesystem afterwards and the
  operations performed. An exception of \<open>open\<close> is caught at line 67.
\<close>

definition header_repair :: "codec \<Rightarrow> fs \<Rightarrow> path \<Rightarrow> segment option \<times> fs \<times> event list" where
  "header_repair cd files p =
     (case files p of
        None \<Rightarrow> (None, files, [Ev_read p])
      | Some blob \<Rightarrow>
          (let riff_pos = bytes_find blob ''RIFF'' in
           if riff_pos \<ge> 0 then
             (let trimmed_path = trimmed_path_of p;
                  files1 = files(trimmed_path \<mapsto> drop (nat riff_pos) blob);
                  tr = [Ev_read p, Ev_write trimmed_path (drop (nat riff_pos) blob),
                        Ev_from_wav trimmed_path, Ev_remove trimmed_path]
              in case AudioSegment_from_wav cd files1 trimmed_path of
                   Inr seg \<Rightarrow> (Some seg, remove_quietly files1 trimmed_path, tr)
                 | Inl e2 \<Rightarrow> (None, remove_quietly files1 trimmed_path, tr))
           else (None, files, [Ev_read p])))"

definition robust_load_audio ::
  "codec \<Rightarrow> fs \<Rightarrow> path \<Rightarrow> int \<Rightarrow> int \<Rightarrow> int \<Rightarrow> (error + segment) \<times> fs \<times> event list" where
  "robust_load_audio cd files p raw_sr raw_channels raw_width =
     (case AudioSegment_from_wav cd files p of
        Inr seg \<Rightarrow> (Inr seg, files, [Ev_from_wav p])
      | Inl e \<Rightarrow>
          (case header_repair cd files p of
             (Some seg, files', tr) \<Rightarrow> (Inr seg, files', Ev_from_wav p # tr)
           | (None, files', tr) \<Rightarrow>
               (AudioSegment_from_raw cd files' p raw_width raw_sr raw_channels, files',
                Ev_from_wav p # tr @ [Ev_from_raw p])))"

subsection \<open>\<open>normalize\<close> (lines 77-88)\<close>

definition normalize :: "pydub \<Rightarrow> segment \<Rightarrow> int \<Rightarrow> int \<Rightarrow> int \<Rightarrow> error + segment" where
  "normalize lib seg target_sr target_channels target_width =
     (case (if frame_rate seg \<noteq> target_sr then set_frame_rate lib seg target_sr else Inr seg) of
        Inl e \<Rightarrow> Inl e
      | Inr seg1 \<Rightarrow>
          (case (if channels seg1 \<noteq> target_channels then set_channels lib seg1 target_channels
                 else Inr seg1) of
             Inl e \<Rightarrow> Inl e
           | Inr seg2 \<Rightarrow>
               (if sample_width seg2 \<noteq> target_width then set_sample_width lib seg2 target_width
                else Inr seg2)))"

subsection \<open>File names (lines 11, 140-148)\<close>

definition is_digit :: "char \<Rightarrow> bool" where
  "is_digit c = (c \<in> set ''0123456789'')"

definition newline :: char where
  "newline = CHR 0x0A"

text \<open>
  \<open>re.match(r'^SBW1520_(\d{8})_(\d{6})\.wav$', f)\<close>: the two groups on a match. \<open>$\<close>
  also matches before a final newline.
\<close>

definition match_pattern :: "string \<Rightarrow> (string \<times> string) option" where
  "match_pattern f =
     (let date_str = take 8 (drop 8 f);
          time_str = take 6 (drop 17 f);
          rest = drop 23 f
      in if take 8 f = ''SBW1520_'' \<and> length date_str = 8 \<and> list_all is_digit date_str
            \<and> take 1 (drop 16 f) = ''_'' \<and> length time_str = 6 \<and> list_all is_digit time_str
            \<and> (rest = ''.wav'' \<or> rest = ''.wav'' @ [newline])
         then Some (date_str, time_str) else None)"

text \<open>\<open>str.rfind\<close> of one character: the highest index, or \<open>-1\<close>.\<close>

definition rfind_char :: "string \<Rightarrow> char \<Rightarrow> int" where
  "rfind_char p c =
     (if c \<in> set p then int (length p) - 1 - int (length (takeWhile (\<lambda>x. x \<noteq> c) (rev p)))
      else - 1)"

text \<open>
  \<open>os.path.splitext\<close> (POSIX): split at the last dot, when that dot comes after the last
  separator and is not one of the dots the base name starts with.
\<close>

definition splitext :: "path \<Rightarrow> path \<times> string" where
  "splitext p =
     (let sepIndex = rfind_char p (CHR ''/'');
          dotIndex = rfind_char p (CHR ''.'')
      in if dotIndex > sepIndex
            \<and> list_ex (\<lambda>c. c \<noteq> CHR ''.'')
                 (take (nat (dotIndex - (sepIndex + 1))) (drop (nat (sepIndex + 1)) p))
         then (take (nat dotIndex) p, drop (nat dotIndex) p)
         else (p, []))"

text \<open>\<open>os.path.join\<close> of two components (POSIX).\<close>

definition os_path_join :: "path \<Rightarrow> path \<Rightarrow> path" where
  "os_path_join a b =
     (if b \<noteq> [] \<and> hd b = CHR ''/'' then b
      else if a = [] \<or> last a = CHR ''/'' then a @ b
      else a @ ''/'' @ b)"

text \<open>
  Lines 141-148, reached with a non-empty group and \<open>ok_count > 0\<close>. Both indexings are
  in range there: \<open>group_files[0]\<close>, and \<open>group_files[ok_count - 1]\<close> under
  \<open>ok_count == len(group_files)\<close>.
\<close>

definition end_tag_of :: "string \<Rightarrow> string" where
  "end_tag_of lastf =
     (case match_pattern lastf of
        Some (date_str, time_str) \<Rightarrow> time_str
      | None \<Rightarrow> fst (splitext lastf))"

definition out_name_of :: "string list \<Rightarrow> nat \<Rightarrow> string" where
  "out_name_of group_files ok_count =
     (let first = group_files ! 0;
          lastf = (if ok_count = length group_files then group_files ! (ok_count - 1)
                   else last group_files);
          first_base = fst (splitext first);
          end_tag = end_tag_of lastf
      in first_base @ ''_TO_'' @ end_tag @ ''.wav'')"

subsection \<open>Merging the groups (lines 111-151)\<close>

record merge_state =
  files :: fs
  failed_files :: "string list"
  group_index :: nat
  exported :: "(path \<times> segment list) list"

text \<open>
  The inner loop, lines 125-134: the running buffer \<open>combined\<close> is the list of the
  segments appended so far. Any exception of the loader or of \<open>normalize\<close> is caught.
\<close>

fun load_group ::
  "codec \<Rightarrow> pydub \<Rightarrow> string list \<Rightarrow> fs \<times> segment list \<times> nat \<times> string list
     \<Rightarrow> fs \<times> segment list \<times> nat \<times> string list" where
  "load_group cd lib [] st = st"
| "load_group cd lib (filename # rest) (fls, combined, ok_count, failed) =
     (let p = os_path_join input_dir filename in
      case robust_load_audio cd fls p TARGET_SR TARGET_CHANNELS TARGET_WIDTH of
        (Inl e, fls', tr) \<Rightarrow> load_group cd lib rest (fls', combined, ok_count, failed @ [filename])
      | (Inr seg, fls', tr) \<Rightarrow>
          (case normalize lib seg TARGET_SR TARGET_CHANNELS TARGET_WIDTH of
             Inl e \<Rightarrow> load_group cd lib rest (fls', combined, ok_count, failed @ [filename])
           | Inr seg' \<Rightarrow>
               load_group cd lib rest (fls', combined @ [seg'], ok_count + 1, failed)))"

definition process_group :: "codec \<Rightarrow> pydub \<Rightarrow> string list \<Rightarrow> merge_state \<Rightarrow> merge_state" where
  "process_group cd lib group_files st =
     (if group_files = [] then st
      else
        (case load_group cd lib group_files (files st, [], 0, failed_files st) of
           (fls', combined, ok_count, failed') \<Rightarrow>
             (let st1 = st\<lparr>files := fls', failed_files := failed',
                           group_index := group_index st + 1\<rparr>
              in if ok_count = 0 then st1
                 else st1\<lparr>exported := exported st1 @
                        [(os_path_join output_dir (out_name_of group_files ok_count), combined)]\<rparr>)))"

definition merge_groups ::
  "codec \<Rightarrow> pydub \<Rightarrow> fs \<Rightarrow> string list \<Rightarrow> nat \<Rightarrow> error + merge_state" where
  "merge_groups cd lib fls sorted_files n =
     (case grouper sorted_files n of
        Inl e \<Rightarrow> Inl e
      | Inr groups \<Rightarrow>
          Inr (foldl (\<lambda>st g. process_group cd lib g st)
                 \<lparr>files = fls, failed_files = [], group_index = 0, exported = []\<rparr> groups))"

text \<open>
  The naming rule in the words of the specification: the first file's base name, the
  separator, and the time portion of the last file of the group that was processed
  successfully, that is, of the last one not recorded as failed.
\<close>

definition spec_out_name :: "string list \<Rightarrow> string list \<Rightarrow> string" where
  "spec_out_name group_files failed =
     (let first = group_files ! 0;
          last_ok = last (filter (\<lambda>f. f \<notin> set failed) group_files)
      in fst (splitext first) @ ''_TO_'' @ end_tag_of last_ok @ ''.wav'')"

subsection \<open>The setter contract and concrete libraries\<close>


text \<open>
  A library that converts the attributes only: positive rates, conversions to or from
  mono, widths of 1 to 4 bytes; anything else raises.
\<close>

definition attribute_pydub :: pydub where
  "attribute_pydub =
     \<lparr>set_frame_rate = (\<lambda>seg v. if 0 < v then Inr (seg\<lparr>frame_rate := v\<rparr>) else Inl ValueError),
      set_channels = (\<lambda>seg v. if 0 < v \<and> (v = 1 \<or> channels seg = 1)
                               then Inr (seg\<lparr>channels := v\<rparr>) else Inl ValueError),
      set_sample_width = (\<lambda>seg v. if 1 \<le> v \<and> v \<le> 4 then Inr (seg\<lparr>sample_width := v\<rparr>)
                                   else Inl ValueError)\<rparr>"

text \<open>
  A decoder that accepts exactly the contents starting with the signature, as 32 kHz mono
  16-bit audio, and has no raw fallback; and one that decodes nothing.
\<close>

definition riff_codec :: codec where
  "riff_codec =
     \<lparr>from_wav = (\<lambda>b. if prefix ''RIFF'' b
                        then Some \<lparr>frame_rate = 32000, channels = 1, sample_width = 2,
                                   raw_data = drop 4 b\<rparr>
                        else None),
      from_raw = (\<lambda>b w r c. None)\<rparr>"

definition deaf_codec :: codec where
  "deaf_codec = \<lparr>from_wav = (\<lambda>b. None), from_raw = (\<lambda>b w r c. None)\<rparr>"

section \<open>Pipeline B: \<open>slice_audio.py\<close>\<close>

subsection \<open>Floats\<close>

text \<open>
  A Python \<open>float\<close> is modelled by its exact value: a rational, or one of the three
  special values. Arithmetic on finite values is exact; the rounding of binary floating
  point and its finite range are not part of the model.
\<close>

datatype pyfloat = Fin rat | PosInf | NegInf | NaN

fun pf_add :: "pyfloat \<Rightarrow> pyfloat \<Rightarrow> pyfloat" where
  "pf_add (Fin a) (Fin b) = Fin (a + b)"
| "pf_add NaN y = NaN"
| "pf_add x NaN = NaN"
| "pf_add PosInf NegInf = NaN"
| "pf_add NegInf PosInf = NaN"
| "pf_add PosInf y = PosInf"
| "pf_add NegInf y = NegInf"
| "pf_add x PosInf = PosInf"
| "pf_add x NegInf = NegInf"

text \<open>\<open>x * 1000\<close>\<close>

fun pf_times_1000 :: "pyfloat \<Rightarrow> pyfloat" where
  "pf_times_1000 (Fin a) = Fin (a * 1000)"
| "pf_times_1000 x = x"

text \<open>\<open>x < y\<close> and \<open>x <= y\<close>; every comparison with \<open>nan\<close> is false.\<close>

fun pf_less :: "pyfloat \<Rightarrow> pyfloat \<Rightarrow> bool" where
  "pf_less NaN y = False"
| "pf_less x NaN = False"
| "pf_less (Fin a) (Fin b) = (a < b)"
| "pf_less x NegInf = False"
| "pf_less NegInf y = True"
| "pf_less PosInf y = False"
| "pf_less x PosInf = True"

fun pf_le :: "pyfloat \<Rightarrow> pyfloat \<Rightarrow> bool" where
  "pf_le NaN y = False"
| "pf_le x NaN = False"
| "pf_le (Fin a) (Fin b) = (a \<le> b)"
| "pf_le NegInf y = True"
| "pf_le x NegInf = False"
| "pf_le x PosInf = True"
| "pf_le PosInf y = False"

text \<open>\<open>round(x)\<close> with one argument: to the nearest integer, halves to the even one.\<close>

definition round_half_even :: "rat \<Rightarrow> int" where
  "round_half_even q =
     (let f = \<lfloor>q\<rfloor>; d = q - of_int f
      in if d < 1 / 2 then f else if 1 / 2 < d then f + 1 else if even f then f else f + 1)"

fun py_round :: "pyfloat \<Rightarrow> error + int" where
  "py_round (Fin q) = Inr (round_half_even q)"
| "py_round NaN = Inl ValueError"
| "py_round x = Inl OverflowError"

text \<open>\<open>int(x)\<close> of a float: truncation towards zero.\<close>

definition trunc :: "rat \<Rightarrow> int" where
  "trunc q = (if 0 \<le> q then \<lfloor>q\<rfloor> else \<lceil>q\<rceil>)"

fun py_int_of_float :: "pyfloat \<Rightarrow> error + int" where
  "py_int_of_float (Fin q) = Inr (trunc q)"
| "py_int_of_float NaN = Inl ValueError"
| "py_int_of_float x = Inl OverflowError"

subsection \<open>Strings and conversions of the standard library\<close>

text \<open>\<open>str.isspace\<close> on code points below 256.\<close>

definition is_space :: "char \<Rightarrow> bool" where
  "is_space c = (c \<in> set [CHR 0x09, CHR 0x0A, CHR 0x0B, CHR 0x0C, CHR 0x0D, CHR 0x1C, CHR 0x1D,
                           CHR 0x1E, CHR 0x1F, CHR 0x20, CHR 0x85, CHR 0xA0])"

definition py_strip :: "string \<Rightarrow> string" where
  "py_strip s = rev (dropWhile is_space (rev (dropWhile is_space s)))"

text \<open>\<open>s.split(":")\<close>\<close>

fun split_on :: "char \<Rightarrow> string \<Rightarrow> string list" where
  "split_on c [] = [[]]"
| "split_on c (x # xs) =
     (if x = c then [] # split_on c xs
      else (case split_on c xs of p # ps \<Rightarrow> (x # p) # ps | [] \<Rightarrow> [[x]]))"

definition digit_val :: "char \<Rightarrow> nat" where
  "digit_val c = length (takeWhile (\<lambda>d. d \<noteq> c) ''0123456789'')"

definition digit_char :: "nat \<Rightarrow> char" where
  "digit_char n = ''0123456789'' ! n"

text \<open>The value of a run of digits; the underscores Python allows between digits are skipped.\<close>

definition digits_value :: "string \<Rightarrow> nat" where
  "digits_value s = foldl (\<lambda>a c. 10 * a + digit_val c) 0 (filter is_digit s)"

text \<open>\<open>digitpart ::= digit (["_"] digit)*\<close>\<close>

fun digitpart :: "string \<Rightarrow> bool" where
  "digitpart [] = False"
| "digitpart [c] = is_digit c"
| "digitpart (c # d # r) =
     (is_digit c \<and> (if d = CHR ''_'' then digitpart r else digitpart (d # r)))"

text \<open>An optional sign: whether it is a minus, and the rest.\<close>

fun take_sign :: "string \<Rightarrow> bool \<times> string" where
  "take_sign [] = (False, [])"
| "take_sign (c # r) =
     (if c = CHR ''-'' then (True, r) else if c = CHR ''+'' then (False, r) else (False, c # r))"

text \<open>\<open>int(s)\<close> of a string, base 10: surrounding whitespace, a sign, a digit part.\<close>

definition py_int :: "string \<Rightarrow> error + int" where
  "py_int s =
     (case take_sign (py_strip s) of
        (neg, body) \<Rightarrow>
          if digitpart body
          then Inr (if neg then - int (digits_value body) else int (digits_value body))
          else Inl ValueError)"

definition lower_char :: "char \<Rightarrow> char" where
  "lower_char c =
     (case map_of (zip ''ABCDEFGHIJKLMNOPQRSTUVWXYZ'' ''abcdefghijklmnopqrstuvwxyz'') c of
        Some d \<Rightarrow> d
      | None \<Rightarrow> c)"

text \<open>
  \<open>floatnumber ::= ([digitpart] "." digitpart | digitpart ["."]) [("e" | "E") [sign] digitpart]\<close>.
  A digit part holds no dot and no \<open>e\<close>, so the mantissa ends at the first \<open>e\<close> or \<open>E\<close> and
  its integer part at the first dot.
\<close>

definition is_exp_mark :: "char \<Rightarrow> bool" where
  "is_exp_mark c = (c = CHR ''e'' \<or> c = CHR ''E'')"

definition mantissa_ok :: "string \<Rightarrow> bool" where
  "mantissa_ok m =
     (let ip = takeWhile (\<lambda>c. c \<noteq> CHR ''.'') m;
          fr = dropWhile (\<lambda>c. c \<noteq> CHR ''.'') m
      in case fr of
           [] \<Rightarrow> digitpart ip
         | dot # fp \<Rightarrow> ((ip = [] \<or> digitpart ip) \<and> digitpart fp) \<or> (digitpart ip \<and> fp = []))"

definition mantissa_value :: "string \<Rightarrow> rat" where
  "mantissa_value m =
     (let ip = takeWhile (\<lambda>c. c \<noteq> CHR ''.'') m;
          fp = filter is_digit (dropWhile (\<lambda>c. c \<noteq> CHR ''.'') m)
      in of_nat (digits_value ip) + of_nat (digits_value fp) / 10 ^ length fp)"

definition exponent_ok :: "string \<Rightarrow> bool" where
  "exponent_ok e = (case e of [] \<Rightarrow> True | mark # ex \<Rightarrow> digitpart (snd (take_sign ex)))"

definition exponent_value :: "string \<Rightarrow> int" where
  "exponent_value e =
     (case e of
        [] \<Rightarrow> 0
      | mark # ex \<Rightarrow>
          (case take_sign ex of
             (neg, body) \<Rightarrow> if neg then - int (digits_value body) else int (digits_value body)))"

definition float_number :: "string \<Rightarrow> rat option" where
  "float_number t =
     (let m = takeWhile (\<lambda>c. \<not> is_exp_mark c) t;
          e = dropWhile (\<lambda>c. \<not> is_exp_mark c) t
      in if mantissa_ok m \<and> exponent_ok e
         then Some (if 0 \<le> exponent_value e
                    then mantissa_value m * 10 ^ nat (exponent_value e)
                    else mantissa_value m / 10 ^ nat (- exponent_value e))
         else None)"

text \<open>
  \<open>float(s)\<close> of a string: surrounding whitespace, a sign, then \<open>inf\<close>, \<open>infinity\<close> or
  \<open>nan\<close> in any case, or a decimal number.
\<close>

definition py_float :: "string \<Rightarrow> error + pyfloat" where
  "py_float s =
     (case take_sign (py_strip s) of
        (neg, body) \<Rightarrow>
          if map lower_char body = ''inf'' \<or> map lower_char body = ''infinity''
          then Inr (if neg then NegInf else PosInf)
          else if map lower_char body = ''nan'' then Inr NaN
          else (case float_number body of
                  None \<Rightarrow> Inl ValueError
                | Some q \<Rightarrow> Inr (Fin (if neg then - q else q))))"

text \<open>\<open>str(n)\<close> of a non-negative integer.\<close>

function digits_of :: "nat \<Rightarrow> string" where
  "digits_of n = (if n < 10 then [digit_char n] else digits_of (n div 10) @ [digit_char (n mod 10)])"
  by pat_completeness auto
termination
  by (relation "measure (\<lambda>n. n)") auto

text \<open>The format \<open>02d\<close>: zeros up to width 2; the sign of a negative number counts.\<close>

definition fmt_02d :: "int \<Rightarrow> string" where
  "fmt_02d n =
     (if n < 0 then CHR ''-'' # digits_of (nat (- n))
      else replicate (2 - length (digits_of (nat n))) (CHR ''0'') @ digits_of (nat n))"

subsection \<open>\<open>parse_hms_or_seconds\<close> (lines 6-18)\<close>

text \<open>
  \<open>re.match(r"^\d+(\.\d+)?$", s)\<close>. Digits and the dot are different characters, so each
  \<open>\d+\<close> takes the whole run of digits; \<open>$\<close> matches at the end or before a final newline.
\<close>

definition at_end :: "string \<Rightarrow> bool" where
  "at_end r = (r = [] \<or> r = [newline])"

definition match_seconds :: "string \<Rightarrow> bool" where
  "match_seconds s =
     (let r = dropWhile is_digit s
      in takeWhile is_digit s \<noteq> [] \<and>
         (at_end r \<or>
          (case r of
             [] \<Rightarrow> False
           | c # r' \<Rightarrow> c = CHR ''.'' \<and> takeWhile is_digit r' \<noteq> [] \<and> at_end (dropWhile is_digit r'))))"

definition parse_hms_or_seconds :: "string \<Rightarrow> error + pyfloat" where
  "parse_hms_or_seconds s0 =
     (let s = py_strip s0 in
      if match_seconds s then py_float s
      else
        (case split_on (CHR '':'') s of
           [mm, ss] \<Rightarrow>
             (case py_int mm of
                Inl e \<Rightarrow> Inl e
              | Inr m \<Rightarrow>
                  (case py_float ss of
                     Inl e \<Rightarrow> Inl e
                   | Inr x \<Rightarrow> Inr (pf_add (Fin (of_int (m * 60))) x)))
         | [hh, mm, ss] \<Rightarrow>
             (case py_int hh of
                Inl e \<Rightarrow> Inl e
              | Inr h \<Rightarrow>
                  (case py_int mm of
                     Inl e \<Rightarrow> Inl e
                   | Inr m \<Rightarrow>
                       (case py_float ss of
                          Inl e \<Rightarrow> Inl e
                        | Inr x \<Rightarrow> Inr (pf_add (Fin (of_int (h * 3600 + m * 60))) x))))
         | parts \<Rightarrow> Inl ValueError))"

subsection \<open>\<open>hms_from_seconds\<close> (lines 20-24)\<close>

text \<open>
  Lines 22-24 on the integer \<open>x_int\<close>. \<open>divmod\<close> rounds the quotient down, as \<open>div\<close> and
  \<open>mod\<close> on \<open>int\<close> do.
\<close>

definition hms_tag :: "int \<Rightarrow> string" where
  "hms_tag x_int =
     (let h = x_int div 3600; r = x_int mod 3600; m = r div 60; s = r mod 60
      in fmt_02d h @ ''h'' @ fmt_02d m @ ''m'' @ fmt_02d s @ ''s'')"

definition hms_from_seconds :: "pyfloat \<Rightarrow> error + string" where
  "hms_from_seconds x =
     (case py_int_of_float x of Inl e \<Rightarrow> Inl e | Inr x_int \<Rightarrow> Inr (hms_tag x_int))"

subsection \<open>\<open>main\<close> (lines 26-90)\<close>

text \<open>The parsed command line. \<open>--chunk\<close> has \<open>type=float\<close>.\<close>

record args =
  arg_input :: path
  arg_start :: string
  arg_end :: string
  arg_outdir :: path
  arg_name :: string
  arg_chunk :: pyfloat
  arg_drop_last :: bool
  arg_force_format :: string
  arg_sr :: "int option"
  arg_channels :: "int option"
  arg_width :: "int option"

text \<open>
  The audio library, as far as \<open>main\<close> observes it: \<open>len(AudioSegment.from_file(p))\<close> in
  milliseconds, and \<open>len(window)\<close> after the slice \<open>audio[start_ms:end_ms]\<close> and the
  optional conversions of lines 60-65 (\<open>Inl\<close>: the call raises).
\<close>

record slicer_env =
  audio_len :: "path \<Rightarrow> error + int"
  window_len :: "args \<Rightarrow> int \<Rightarrow> int \<Rightarrow> error + int"

text \<open>One \<open>seg.export(out_path, ...)\<close>: the file name and the slice \<open>window[pos:nxt]\<close>.\<close>

record export =
  ex_root :: path
  ex_name :: string
  ex_pos :: int
  ex_nxt :: int

text \<open>
  The loop of lines 74-88 from the state \<open>(pos, n)\<close>, with the exports made so far. It
  yields the final count \<open>n\<close>, or the exception of \<open>hms_from_seconds\<close>, together with
  the exports; \<open>None\<close> when the loop runs forever.
\<close>

partial_function (option) chunk_loop ::
  "args \<Rightarrow> path \<Rightarrow> pyfloat \<Rightarrow> int \<Rightarrow> int \<Rightarrow> int \<Rightarrow> nat \<Rightarrow> export list
     \<Rightarrow> ((error + nat) \<times> export list) option" where
  "chunk_loop a out_root start_sec chunk_ms wlen pos n done =
     (if pos < wlen then
        (if arg_drop_last a \<and> min (pos + chunk_ms) wlen - pos < chunk_ms then Some (Inr n, done)
         else
           (case hms_from_seconds (pf_add start_sec (Fin (of_int pos / 1000))) of
              Inl e \<Rightarrow> Some (Inl e, done)
            | Inr start_tag \<Rightarrow>
                chunk_loop a out_root start_sec chunk_ms wlen (min (pos + chunk_ms) wlen) (n + 1)
                  (done @ [\<lparr>ex_root = out_root,
                            ex_name = arg_name a @ ''_'' @ start_tag @ ''.'' @ arg_force_format a,
                            ex_pos = pos, ex_nxt = min (pos + chunk_ms) wlen\<rparr>])))
      else Some (Inr n, done))"

definition main :: "slicer_env \<Rightarrow> args \<Rightarrow> ((error + nat) \<times> export list) option" where
  "main env a =
     (case audio_len env (arg_input a) of
        Inl e \<Rightarrow> Some (Inl e, [])
      | Inr total_ms \<Rightarrow>
     (case parse_hms_or_seconds (arg_start a) of
        Inl e \<Rightarrow> Some (Inl e, [])
      | Inr start_sec \<Rightarrow>
     (case parse_hms_or_seconds (arg_end a) of
        Inl e \<Rightarrow> Some (Inl e, [])
      | Inr end_sec \<Rightarrow>
     if \<not> pf_less start_sec end_sec then Some (Inl AssertionError, [])
     else
     (case py_round (pf_times_1000 start_sec) of
        Inl e \<Rightarrow> Some (Inl e, [])
      | Inr rs \<Rightarrow>
     (case py_round (pf_times_1000 end_sec) of
        Inl e \<Rightarrow> Some (Inl e, [])
      | Inr re \<Rightarrow>
     if min total_ms re \<le> max 0 rs then Some (Inl ValueError, [])
     else
     (case window_len env a (max 0 rs) (min total_ms re) of
        Inl e \<Rightarrow> Some (Inl e, [])
      | Inr wlen \<Rightarrow>
     (case py_round (pf_times_1000 (arg_chunk a)) of
        Inl e \<Rightarrow> Some (Inl e, [])
      | Inr chunk_ms \<Rightarrow>
          chunk_loop a (os_path_join (arg_outdir a) (arg_name a)) start_sec chunk_ms wlen
            0 0 [])))))))"

text \<open>
  An audio library for concrete runs: every input decodes to \<open>total_ms\<close> milliseconds and a
  window is exactly as long as its bounds say.
\<close>

definition exact_env :: "int \<Rightarrow> slicer_env" where
  "exact_env total_ms = \<lparr>audio_len = (\<lambda>p. Inr total_ms), window_len = (\<lambda>a s e. Inr (e - s))\<rparr>"

definition slice_args :: "string \<Rightarrow> string \<Rightarrow> pyfloat \<Rightarrow> bool \<Rightarrow> args" where
  "slice_args start_arg end_arg chunk_arg drop_arg =
     \<lparr>arg_input = ''long.wav'', arg_start = start_arg, arg_end = end_arg, arg_outdir = ''dataset'',
      arg_name = ''src'', arg_chunk = chunk_arg, arg_drop_last = drop_arg, arg_force_format = ''wav'',
      arg_sr = None, arg_channels = None, arg_width = None\<rparr>"

subsection \<open>The accepted time formats, as specified and as converted\<close>





section \<open>Properties of the grouping loop\<close>

lemma range_from_unfold:
  "0 < step \<Longrightarrow> i < stop \<Longrightarrow> range_from i stop step = i # range_from (i + step) stop step"
  by simp

lemma range_from_done: "stop \<le> i \<Longrightarrow> range_from i stop step = []"
  by simp

declare range_from.simps [simp del]

lemma length_range_from:
  "0 < step \<Longrightarrow> length (range_from i stop step) = (stop - i + step - 1) div step"
proof (induction i stop step rule: range_from.induct)
  case (1 i stop step)
  show ?case
  proof (cases "stop \<le> i")
    case True
    with "1.prems" show ?thesis by (simp add: range_from_done)
  next
    case False
    then have lt: "i < stop" by simp
    have ih: "length (range_from (i + step) stop step) = (stop - (i + step) + step - 1) div step"
      using "1.IH" "1.prems" False by simp
    show ?thesis
    proof (cases "stop \<le> i + step")
      case True
      then have "stop - i + step - 1 < 2 * step" "step \<le> stop - i + step - 1"
        using lt "1.prems" by auto
      then have "(stop - i + step - 1) div step = 1"
        by (metis One_nat_def Suc_1 div_nat_eqI mult.commute mult_Suc_right nat_mult_1_right)
      moreover have "(stop - (i + step) + step - 1) div step = 0"
        using True "1.prems" by simp
      ultimately show ?thesis
        using ih lt "1.prems" by (simp add: range_from_unfold)
    next
      case False
      then have "stop - i + step - 1 = (stop - (i + step) + step - 1) + step" by simp
      then have "(stop - i + step - 1) div step = Suc ((stop - (i + step) + step - 1) div step)"
        using "1.prems" by (metis div_add_self2 less_numeral_extra(3) Suc_eq_plus1)
      then show ?thesis
        using ih lt "1.prems" by (simp add: range_from_unfold)
    qed
  qed
qed

lemma concat_slices:
  "0 < n \<Longrightarrow>
   concat (map (\<lambda>i. slice_files xs i (i + n)) (range_from i (length xs) n)) = drop i xs"
proof (induction i "length xs" n rule: range_from.induct)
  case (1 i step)
  show ?case
  proof (cases "length xs \<le> i")
    case True
    then show ?thesis by (simp add: range_from_done)
  next
    case False
    then have lt: "i < length xs" by simp
    have ih: "concat (map (\<lambda>i. slice_files xs i (i + step)) (range_from (i + step) (length xs) step))
              = drop (i + step) xs"
      using "1.hyps" "1.prems" False by simp
    have "take step (drop i xs) @ drop (i + step) xs = drop i xs"
      by (metis add.commute append_take_drop_id drop_drop)
    then show ?thesis
      using ih lt "1.prems" by (simp add: range_from_unfold slice_files_def)
  qed
qed

lemma nth_range_from:
  "0 < step \<Longrightarrow> j < length (range_from i stop step) \<Longrightarrow> range_from i stop step ! j = i + j * step"
proof (induction j arbitrary: i)
  case 0
  then have "i < stop" by (metis range_from_done list.size(3) not_less less_irrefl)
  then show ?case using 0 by (simp add: range_from_unfold)
next
  case (Suc j)
  then have lt: "i < stop" by (metis range_from_done list.size(3) not_less less_nat_zero_code)
  then have eq: "range_from i stop step = i # range_from (i + step) stop step"
    using Suc.prems by (simp add: range_from_unfold)
  then have "j < length (range_from (i + step) stop step)" using Suc.prems by simp
  then have "range_from (i + step) stop step ! j = i + step + j * step"
    using Suc.IH Suc.prems by simp
  then show ?case using eq by simp
qed

lemma ceil_div_bounds:
  fixes L n j :: nat
  assumes "0 < n" "j < (L + n - 1) div n"
  shows "j * n < L"
proof -
  have "Suc j \<le> (L + n - 1) div n" using assms by simp
  then have "Suc j * n \<le> L + n - 1" using assms(1)
    by (simp add: less_eq_div_iff_mult_less_eq)
  then show ?thesis using assms(1) by simp
qed

lemma ceil_div_inner:
  fixes L n j :: nat
  assumes "0 < n" "Suc j < (L + n - 1) div n"
  shows "j * n + n < L"
  using ceil_div_bounds[OF assms] by simp

lemma ceil_div_last:
  fixes L n j :: nat
  assumes "0 < n" "Suc j = (L + n - 1) div n"
  shows "L \<le> j * n + n"
proof (rule ccontr)
  assume "\<not> L \<le> j * n + n"
  then have "Suc (Suc j) * n \<le> L + n - 1" using assms(1) by simp
  then have "Suc (Suc j) \<le> (L + n - 1) div n" using assms(1)
    by (simp add: less_eq_div_iff_mult_less_eq)
  then show False using assms(2) by simp
qed


text \<open>
  Claim C5. For a list of \<open>L\<close> files and a group size \<open>N > 0\<close> the grouping loop yields
  \<open>ceil(L / N)\<close> groups; their concatenation in order is the list itself; every group has
  \<open>N\<close> files, except that the last one has \<open>L mod N\<close> files when \<open>N\<close> does not divide \<open>L\<close>.
\<close>

theorem grouper_partition:
  assumes "0 < n"
  shows "\<exists>groups. grouper xs n = Inr groups
           \<and> length groups = (length xs + n - 1) div n
           \<and> concat groups = xs
           \<and> (\<forall>j < length groups.
                 length (groups ! j) =
                   (if Suc j < length groups \<or> n dvd length xs then n else length xs mod n))"
proof -
  define groups where "groups = map (\<lambda>i. slice_files xs i (i + n)) (range_from 0 (length xs) n)"
  have g: "grouper xs n = Inr groups"
    using assms by (simp add: grouper_def group_starts_def groups_def)
  have len: "length groups = (length xs + n - 1) div n"
    using length_range_from[OF assms, of 0 "length xs"] by (simp add: groups_def)
  have cat: "concat groups = xs"
    using concat_slices[OF assms, of xs 0] by (simp add: groups_def)
  have sizes: "length (groups ! j) =
                 (if Suc j < length groups \<or> n dvd length xs then n else length xs mod n)"
    if j: "j < length groups" for j
  proof -
    have jr: "j < length (range_from 0 (length xs) n)" using j by (simp add: groups_def)
    have "groups ! j = slice_files xs (j * n) (j * n + n)"
      using jr nth_range_from[OF assms jr] by (simp add: groups_def)
    then have lj: "length (groups ! j) = min n (length xs - j * n)"
      by (simp add: slice_files_def min.commute)
    have below: "j * n < length xs"
      using ceil_div_bounds[OF assms] j len by simp
    show ?thesis
    proof (cases "Suc j < length groups")
      case True
      then have "j * n + n < length xs" using ceil_div_inner[OF assms] len by simp
      then show ?thesis using lj True by simp
    next
      case False
      then have "Suc j = (length xs + n - 1) div n" using j len by simp
      then have up: "length xs \<le> j * n + n" using ceil_div_last[OF assms] by simp
      show ?thesis
      proof (cases "n dvd length xs")
        case True
        then obtain k where k: "length xs = n * k" by (auto elim: dvdE)
        have "j < k" using below k assms by (simp add: mult.commute)
        moreover have "k \<le> Suc j" using up k assms
          by (metis mult.commute mult_Suc mult_le_cancel2 add.commute)
        ultimately have "k = Suc j" by simp
        then show ?thesis using lj k by (simp add: mult.commute)
      next
        case ndvd: False
        have "length xs - j * n < n"
        proof -
          have "length xs \<noteq> j * n + n" using ndvd
            by (metis dvd_triv_right mult_Suc add.commute)
          then show ?thesis using up below by simp
        qed
        moreover have "length xs = j * n + (length xs - j * n)" using below by simp
        ultimately have "length xs mod n = length xs - j * n"
          by (metis mod_mult_self3 mod_less)
        then show ?thesis using lj False ndvd \<open>length xs - j * n < n\<close> by simp
      qed
    qed
  qed
  show ?thesis using g len cat sizes by blast
qed

theorem grouper_partition_witness:
  "(0::nat) < 2 \<and> grouper [1, 2, 3, 4, 5 :: nat] 2 = Inr [[1, 2], [3, 4], [5]]"
proof -
  have g: "grouper [1, 2, 3, 4, 5 :: nat] 2 = Inr [[1, 2], [3, 4], [5]]"
    by (simp add: grouper_def group_starts_def slice_files_def range_from.simps)
  from grouper_partition[of 2 "[1, 2, 3, 4, 5 :: nat]"] g show ?thesis by simp
qed

section \<open>Properties of the chunk loop\<close>

lemma hms_from_seconds_fin:
  "hms_from_seconds (pf_add (Fin q) (Fin r)) = Inr (hms_tag (trunc (q + r)))"
  by (simp add: hms_from_seconds_def)

lemma chunk_loop_terminates:
  assumes "1 \<le> chunk_ms"
  shows "\<exists>r. chunk_loop a out_root start_sec chunk_ms wlen pos n done = Some r"
proof (induction "nat (wlen - pos)" arbitrary: pos n "done" rule: less_induct)
  case less
  show ?case
  proof (cases "pos < wlen")
    case False
    then show ?thesis by (subst chunk_loop.simps) simp
  next
    case True
    let ?nxt = "min (pos + chunk_ms) wlen"
    have smaller: "nat (wlen - ?nxt) < nat (wlen - pos)"
      using True assms by auto
    show ?thesis
    proof (cases "arg_drop_last a \<and> ?nxt - pos < chunk_ms")
      case True
      then show ?thesis using \<open>pos < wlen\<close> by (subst chunk_loop.simps) simp
    next
      case nodrop: False
      show ?thesis
      proof (cases "hms_from_seconds (pf_add start_sec (Fin (of_int pos / 1000)))")
        case (Inl e)
        then show ?thesis using True nodrop by (subst chunk_loop.simps) simp
      next
        case (Inr tag)
        from less.hyps[OF smaller] obtain r where
          "chunk_loop a out_root start_sec chunk_ms wlen ?nxt (n + 1)
             (done @ [\<lparr>ex_root = out_root,
                       ex_name = arg_name a @ ''_'' @ tag @ ''.'' @ arg_force_format a,
                       ex_pos = pos, ex_nxt = ?nxt\<rparr>]) = Some r"
          by blast
        then show ?thesis using True nodrop Inr by (subst chunk_loop.simps) simp
      qed
    qed
  qed
qed

lemma chunk_loop_zero_stuck:
  assumes "chunk_loop a out_root start_sec chunk_ms wlen pos n done = Some y"
  shows "\<not> (chunk_ms = 0 \<and> pos < wlen \<and> (\<exists>q. start_sec = Fin q))"
proof (rule chunk_loop.raw_induct
    [where P = "\<lambda>a out_root start_sec chunk_ms wlen pos n done y.
                  \<not> (chunk_ms = 0 \<and> pos < wlen \<and> (\<exists>q. start_sec = Fin q))",
     OF _ assms])
  fix f :: "args \<Rightarrow> path \<Rightarrow> pyfloat \<Rightarrow> int \<Rightarrow> int \<Rightarrow> int \<Rightarrow> nat \<Rightarrow> export list
              \<Rightarrow> ((error + nat) \<times> export list) option"
  fix a out_root start_sec chunk_ms wlen pos n dn y
  assume IH: "\<And>a out_root start_sec chunk_ms wlen pos n dn y.
                f a out_root start_sec chunk_ms wlen pos n dn = Some y \<Longrightarrow>
                \<not> (chunk_ms = 0 \<and> pos < wlen \<and> (\<exists>q. start_sec = Fin q))"
  assume body:
    "(if pos < wlen then
        (if arg_drop_last a \<and> min (pos + chunk_ms) wlen - pos < chunk_ms then Some (Inr n, dn)
         else
           (case hms_from_seconds (pf_add start_sec (Fin (of_int pos / 1000))) of
              Inl e \<Rightarrow> Some (Inl e, dn)
            | Inr start_tag \<Rightarrow>
                f a out_root start_sec chunk_ms wlen (min (pos + chunk_ms) wlen) (n + 1)
                  (dn @ [\<lparr>ex_root = out_root,
                          ex_name = arg_name a @ ''_'' @ start_tag @ ''.'' @ arg_force_format a,
                          ex_pos = pos, ex_nxt = min (pos + chunk_ms) wlen\<rparr>])))
      else Some (Inr n, dn)) = Some y"
  show "\<not> (chunk_ms = 0 \<and> pos < wlen \<and> (\<exists>q. start_sec = Fin q))"
  proof
    assume h: "chunk_ms = 0 \<and> pos < wlen \<and> (\<exists>q. start_sec = Fin q)"
    then obtain q where q: "start_sec = Fin q" by blast
    have "f a out_root start_sec chunk_ms wlen pos (n + 1)
            (dn @ [\<lparr>ex_root = out_root,
                    ex_name = arg_name a @ ''_'' @ hms_tag (trunc (q + of_int pos / 1000))
                              @ ''.'' @ arg_force_format a,
                    ex_pos = pos, ex_nxt = pos\<rparr>]) = Some y"
      using body h q by (simp add: hms_from_seconds_def)
    from IH[OF this] h show False by simp
  qed
qed

lemma chunk_loop_zero_diverges:
  assumes "pos < wlen"
  shows "chunk_loop a out_root (Fin q) 0 wlen pos n done = None"
proof (cases "chunk_loop a out_root (Fin q) 0 wlen pos n done")
  case None
  then show ?thesis .
next
  case (Some y)
  from chunk_loop_zero_stuck[OF this] assms show ?thesis by simp
qed

lemma round_half_even_int [simp]: "round_half_even (of_int i) = i"
  by (simp add: round_half_even_def)

lemma round_half_even_numeral [simp]: "round_half_even (numeral k) = numeral k"
  using round_half_even_int[of "numeral k"] by simp

lemma round_half_even_zero [simp]: "round_half_even 0 = 0"
  using round_half_even_int[of 0] by simp

text \<open>
  Claim C10. The chunk loop terminates from every state whenever \<open>chunk_ms\<close> is at least 1
  (the distance from \<open>pos\<close> to the window length shrinks in every iteration). With
  \<open>chunk_ms = 0\<close> and \<open>drop_last\<close> unset, a loop that is entered (\<open>pos < len(window)\<close>)
  never advances \<open>pos\<close> and does not terminate.
\<close>

theorem chunk_loop_termination:
  "(1 \<le> chunk_ms \<longrightarrow>
      (\<exists>r. chunk_loop a out_root start_sec chunk_ms wlen pos n done = Some r)) \<and>
   (\<not> arg_drop_last a \<and> pos < wlen \<longrightarrow>
      chunk_loop a out_root (Fin q) 0 wlen pos n done = None)"
  using chunk_loop_terminates chunk_loop_zero_diverges by blast

theorem chunk_loop_termination_witness:
  "(1::int) \<le> 15000 \<and>
   chunk_loop (slice_args ''0'' ''40'' (Fin 15) False) ''dataset/src'' (Fin 0) 15000 40000 0 0 [] \<noteq> None \<and>
   \<not> arg_drop_last (slice_args ''0'' ''40'' (Fin (1 / 2500)) False) \<and> (0::int) < 40000 \<and>
   py_round (pf_times_1000 (Fin (1 / 2500))) = Inr 0 \<and>
   main (exact_env 60000) (slice_args ''0'' ''40'' (Fin (1 / 2500)) False) = None"
proof -
  let ?a = "slice_args ''0'' ''40'' (Fin (1 / 2500)) False"
  have p0: "parse_hms_or_seconds ''0'' = Inr (Fin 0)" by code_simp
  have p40: "parse_hms_or_seconds ''40'' = Inr (Fin 40)" by code_simp
  have r: "py_round (pf_times_1000 (Fin (1 / 2500))) = Inr 0"
    by code_simp
  have nd: "\<not> arg_drop_last ?a" by (simp add: slice_args_def)
  have d: "chunk_loop ?a (os_path_join (arg_outdir ?a) (arg_name ?a)) (Fin 0) 0 40000 0 0 [] = None"
    using chunk_loop_termination[of 0 ?a _ "Fin 0" 40000 0 0 "[]" 0] nd by simp
  have m: "main (exact_env 60000) ?a = None"
    using p0 p40 r d by (simp add: main_def exact_env_def slice_args_def)
  have t: "chunk_loop (slice_args ''0'' ''40'' (Fin 15) False) ''dataset/src'' (Fin 0) 15000 40000 0 0 [] \<noteq> None"
    using chunk_loop_termination[of 15000 "slice_args ''0'' ''40'' (Fin 15) False" "''dataset/src''" "Fin 0" 40000 0 0 "[]"]
    by auto
  show ?thesis using m t r nd by simp
qed


section \<open>Properties of \<open>main\<close>\<close>

declare digits_of.simps [simp del]

lemma pf_le_not_less: "pf_le x y \<Longrightarrow> \<not> pf_less y x"
  by (cases x; cases y) auto

text \<open>
  Claim C9. When the input decodes and both times parse, and the parsed end time is less
  than or equal to the parsed start time, the run ends in the \<open>AssertionError\<close> of line 50
  and has exported nothing.
\<close>

theorem main_rejects_empty_window:
  assumes "audio_len env (arg_input a) = Inr total_ms"
    and "parse_hms_or_seconds (arg_start a) = Inr start_sec"
    and "parse_hms_or_seconds (arg_end a) = Inr end_sec"
    and "pf_le end_sec start_sec"
  shows "main env a = Some (Inl AssertionError, [])"
  using assms pf_le_not_less[OF assms(4)] by (simp add: main_def)

theorem main_rejects_empty_window_witness:
  "audio_len (exact_env 60000) (arg_input (slice_args ''0:10'' ''5'' (Fin 15) False)) = Inr 60000 \<and>
   parse_hms_or_seconds (arg_start (slice_args ''0:10'' ''5'' (Fin 15) False)) = Inr (Fin 10) \<and>
   parse_hms_or_seconds (arg_end (slice_args ''0:10'' ''5'' (Fin 15) False)) = Inr (Fin 5) \<and>
   pf_le (Fin 5) (Fin 10) \<and>
   main (exact_env 60000) (slice_args ''0:10'' ''5'' (Fin 15) False) = Some (Inl AssertionError, [])"
proof -
  let ?a = "slice_args ''0:10'' ''5'' (Fin 15) False"
  have l: "audio_len (exact_env 60000) (arg_input ?a) = Inr 60000"
    by (simp add: exact_env_def)
  have s: "parse_hms_or_seconds (arg_start ?a) = Inr (Fin 10)"
    unfolding slice_args_def by code_simp
  have e: "parse_hms_or_seconds (arg_end ?a) = Inr (Fin 5)"
    unfolding slice_args_def by code_simp
  have c: "pf_le (Fin 5) (Fin 10)" by simp
  show ?thesis using l s e c main_rejects_empty_window[OF l s e c] by simp
qed

lemma hms_0: "hms_from_seconds (Fin 0) = Inr ''00h00m00s''" by code_simp
lemma hms_15: "hms_from_seconds (Fin 15) = Inr ''00h00m15s''" by code_simp
lemma hms_30: "hms_from_seconds (Fin 30) = Inr ''00h00m30s''" by code_simp
lemma parse_0: "parse_hms_or_seconds ''0'' = Inr (Fin 0)" by code_simp
lemma parse_40: "parse_hms_or_seconds ''40'' = Inr (Fin 40)" by code_simp
text \<open>A run over a window of 40 seconds with the default chunk of 15 seconds.\<close>

lemma main_40s_keep:
  "main (exact_env 60000) (slice_args ''0'' ''40'' (Fin 15) False) =
     Some (Inr 3,
       [\<lparr>ex_root = ''dataset/src'', ex_name = ''src_00h00m00s.wav'', ex_pos = 0, ex_nxt = 15000\<rparr>,
        \<lparr>ex_root = ''dataset/src'', ex_name = ''src_00h00m15s.wav'', ex_pos = 15000, ex_nxt = 30000\<rparr>,
        \<lparr>ex_root = ''dataset/src'', ex_name = ''src_00h00m30s.wav'', ex_pos = 30000, ex_nxt = 40000\<rparr>])"
  by (simp add: main_def exact_env_def slice_args_def parse_0 parse_40 chunk_loop.simps
      os_path_join_def hms_0 hms_15 hms_30)


lemma main_40s_drop_last:
  "main (exact_env 60000) (slice_args ''0'' ''40'' (Fin 15) True) =
     Some (Inr 2,
       [\<lparr>ex_root = ''dataset/src'', ex_name = ''src_00h00m00s.wav'', ex_pos = 0, ex_nxt = 15000\<rparr>,
        \<lparr>ex_root = ''dataset/src'', ex_name = ''src_00h00m15s.wav'', ex_pos = 15000, ex_nxt = 30000\<rparr>])"
  by (simp add: main_def exact_env_def slice_args_def parse_0 parse_40 chunk_loop.simps
      os_path_join_def hms_0 hms_15 hms_30)

text \<open>
  Claim C7. \<open>chunk = 15\<close> gives \<open>chunk_ms = 15000\<close>. Over a window of 40000 ms, whatever
  the start time and the names, the loop exports the slices \<open>[0, 15000)\<close>, \<open>[15000, 30000)\<close>
  and \<open>[30000, 40000)\<close>, of 15 s, 15 s and 10 s, when \<open>drop_last\<close> is unset, and only the
  first two when it is set. Each slice is given as its start and its length.
\<close>

theorem slicer_40s_by_15s:
  "py_round (pf_times_1000 (Fin 15)) = Inr 15000 \<and>
   map_option (\<lambda>(r, es). (r, map (\<lambda>e. (ex_pos e, ex_nxt e - ex_pos e)) es))
     (chunk_loop (a\<lparr>arg_drop_last := False\<rparr>) out_root (Fin q) 15000 40000 0 0 [])
     = Some (Inr 3, [(0, 15000), (15000, 15000), (30000, 10000)]) \<and>
   map_option (\<lambda>(r, es). (r, map (\<lambda>e. (ex_pos e, ex_nxt e - ex_pos e)) es))
     (chunk_loop (a\<lparr>arg_drop_last := True\<rparr>) out_root (Fin q) 15000 40000 0 0 [])
     = Some (Inr 2, [(0, 15000), (15000, 15000)])"
proof -
  have r: "py_round (pf_times_1000 (Fin 15)) = Inr 15000" by simp
  have keep: "map_option (\<lambda>(r, es). (r, map (\<lambda>e. (ex_pos e, ex_nxt e - ex_pos e)) es))
     (chunk_loop (a\<lparr>arg_drop_last := False\<rparr>) out_root (Fin q) 15000 40000 0 0 [])
     = Some (Inr 3, [(0, 15000), (15000, 15000), (30000, 10000)])"
    by (simp add: chunk_loop.simps hms_from_seconds_def)
  have dropped: "map_option (\<lambda>(r, es). (r, map (\<lambda>e. (ex_pos e, ex_nxt e - ex_pos e)) es))
     (chunk_loop (a\<lparr>arg_drop_last := True\<rparr>) out_root (Fin q) 15000 40000 0 0 [])
     = Some (Inr 2, [(0, 15000), (15000, 15000)])"
    by (simp add: chunk_loop.simps hms_from_seconds_def)
  show ?thesis using r keep dropped by blast
qed

section \<open>Properties of the time tag\<close>

lemma digit_char_props:
  assumes "n < 10"
  shows "is_digit (digit_char n)" and "digit_val (digit_char n) = n"
proof -
  from assms have "n \<in> {0, 1, 2, 3, 4, 5, 6, 7, 8, 9}" by auto
  then show "is_digit (digit_char n)" and "digit_val (digit_char n) = n"
    by (auto simp: digit_char_def digit_val_def is_digit_def)
qed

lemma digits_value_snoc:
  "is_digit c \<Longrightarrow> digits_value (xs @ [c]) = 10 * digits_value xs + digit_val c"
  by (simp add: digits_value_def)

lemma digits_of_all_digits: "list_all is_digit (digits_of n)"
proof (induction n rule: digits_of.induct)
  case (1 n)
  show ?case
  proof (cases "n < 10")
    case True
    then show ?thesis by (subst digits_of.simps) (simp add: digit_char_props)
  next
    case False
    then show ?thesis using 1 by (subst digits_of.simps) (simp add: digit_char_props)
  qed
qed

lemma digits_value_digits_of: "digits_value (digits_of n) = n"
proof (induction n rule: digits_of.induct)
  case (1 n)
  show ?case
  proof (cases "n < 10")
    case True
    then show ?thesis
      by (subst digits_of.simps) (simp add: digits_value_def digit_char_props)
  next
    case False
    then have "digits_value (digits_of (n div 10)) = n div 10" using 1 by simp
    then show ?thesis using False
      by (subst digits_of.simps) (simp add: digits_value_snoc digit_char_props)
  qed
qed

lemma digits_value_zero_Cons: "digits_value (CHR ''0'' # s) = digits_value s"
  by (simp add: digits_value_def is_digit_def digit_val_def)

lemma digits_value_zeros: "digits_value (replicate k (CHR ''0'') @ s) = digits_value s"
  by (induction k) (simp_all add: digits_value_zero_Cons)

lemma fmt_02d_value: "0 \<le> n \<Longrightarrow> int (digits_value (fmt_02d n)) = n"
  by (simp add: fmt_02d_def digits_value_zeros digits_value_digits_of)

lemma zeros_all_digits: "list_all is_digit (replicate k (CHR ''0''))"
  by (induction k) (simp_all add: is_digit_def)

lemma fmt_02d_digits: "0 \<le> n \<Longrightarrow> list_all is_digit (fmt_02d n)"
  by (simp add: fmt_02d_def zeros_all_digits digits_of_all_digits)

lemma fmt_02d_inj: "0 \<le> m \<Longrightarrow> 0 \<le> n \<Longrightarrow> fmt_02d m = fmt_02d n \<Longrightarrow> m = n"
  by (metis fmt_02d_value)

lemma letter_not_in_fmt:
  assumes "0 \<le> n" "\<not> is_digit c"
  shows "c \<notin> set (fmt_02d n)"
  using fmt_02d_digits[OF assms(1)] assms(2) by (auto simp: list_all_iff)

lemma split_at_letter:
  assumes "c \<notin> set xs" "c \<notin> set xs'" "xs @ c # ys = xs' @ c # ys'"
  shows "xs = xs' \<and> ys = ys'"
proof -
  have "takeWhile (\<lambda>x. x \<noteq> c) (xs @ c # ys) = xs"
    using assms(1) by (auto simp: takeWhile_tail)
  moreover have "takeWhile (\<lambda>x. x \<noteq> c) (xs' @ c # ys') = xs'"
    using assms(2) by (auto simp: takeWhile_tail)
  ultimately have "xs = xs'" using assms(3) by simp
  then show ?thesis using assms(3) by simp
qed

lemma hms_tag_inj:
  assumes "0 \<le> x" "0 \<le> y" "hms_tag x = hms_tag y"
  shows "x = y"
proof -
  let ?h = "\<lambda>v::int. v div 3600" and ?m = "\<lambda>v::int. v mod 3600 div 60"
    and ?s = "\<lambda>v::int. v mod 3600 mod 60"
  have nonneg: "0 \<le> ?h x" "0 \<le> ?h y" "0 \<le> ?m x" "0 \<le> ?m y" "0 \<le> ?s x" "0 \<le> ?s y"
    using assms(1,2) by (simp_all add: pos_imp_zdiv_nonneg_iff)
  have nd: "\<not> is_digit (CHR ''h'')" "\<not> is_digit (CHR ''m'')"
    by (simp_all add: is_digit_def)
  have eq: "fmt_02d (?h x) @ CHR ''h'' # (fmt_02d (?m x) @ CHR ''m'' # (fmt_02d (?s x) @ ''s''))
          = fmt_02d (?h y) @ CHR ''h'' # (fmt_02d (?m y) @ CHR ''m'' # (fmt_02d (?s y) @ ''s''))"
    using assms(3) by (simp add: hms_tag_def Let_def)
  have hr: "fmt_02d (?h x) = fmt_02d (?h y) \<and>
            fmt_02d (?m x) @ CHR ''m'' # (fmt_02d (?s x) @ ''s'')
             = fmt_02d (?m y) @ CHR ''m'' # (fmt_02d (?s y) @ ''s'')"
    by (rule split_at_letter[OF letter_not_in_fmt[OF nonneg(1) nd(1)]
            letter_not_in_fmt[OF nonneg(2) nd(1)] eq])
  then have h: "fmt_02d (?h x) = fmt_02d (?h y)"
    and rest: "fmt_02d (?m x) @ CHR ''m'' # (fmt_02d (?s x) @ ''s'')
             = fmt_02d (?m y) @ CHR ''m'' # (fmt_02d (?s y) @ ''s'')"
    by blast+
  have ms: "fmt_02d (?m x) = fmt_02d (?m y) \<and> fmt_02d (?s x) @ ''s'' = fmt_02d (?s y) @ ''s''"
    by (rule split_at_letter[OF letter_not_in_fmt[OF nonneg(3) nd(2)]
            letter_not_in_fmt[OF nonneg(4) nd(2)] rest])
  then have m: "fmt_02d (?m x) = fmt_02d (?m y)" and s: "fmt_02d (?s x) = fmt_02d (?s y)"
    by simp_all
  have parts: "?h x = ?h y" "?m x = ?m y" "?s x = ?s y"
    using fmt_02d_inj[OF nonneg(1) nonneg(2) h] fmt_02d_inj[OF nonneg(3) nonneg(4) m]
      fmt_02d_inj[OF nonneg(5) nonneg(6) s] by blast+
  have "x mod 3600 = ?m x * 60 + ?s x" by (rule div_mult_mod_eq[symmetric])
  also have "\<dots> = ?m y * 60 + ?s y" by (simp only: parts)
  also have "\<dots> = y mod 3600" by (rule div_mult_mod_eq)
  finally have low: "x mod 3600 = y mod 3600" .
  have "x = ?h x * 3600 + x mod 3600" by (rule div_mult_mod_eq[symmetric])
  also have "\<dots> = ?h y * 3600 + y mod 3600" by (simp only: parts low)
  also have "\<dots> = y" by (rule div_mult_mod_eq)
  finally show ?thesis .
qed


section \<open>The tags of the exported chunks\<close>

lemma chunk_loop_exports:
  assumes "1 \<le> chunk_ms"
  shows "\<exists>es. chunk_loop a out_root (Fin q) chunk_ms wlen pos n done
                 = Some (Inr (n + length es), done @ es)
            \<and> (\<forall>e \<in> set es. pos \<le> ex_pos e \<and> ex_pos e < wlen
                  \<and> ex_name e = arg_name a @ ''_'' @ hms_tag (trunc (q + of_int (ex_pos e) / 1000))
                                 @ ''.'' @ arg_force_format a)
            \<and> sorted_wrt (\<lambda>e e'. ex_pos e + chunk_ms \<le> ex_pos e') es"
proof (induction "nat (wlen - pos)" arbitrary: pos n "done" rule: less_induct)
  case less
  show ?case
  proof (cases "pos < wlen")
    case False
    then have "chunk_loop a out_root (Fin q) chunk_ms wlen pos n done = Some (Inr n, done)"
      by (subst chunk_loop.simps) simp
    then show ?thesis by (intro exI[of _ "[]"]) simp
  next
    case True
    let ?nxt = "min (pos + chunk_ms) wlen"
    let ?e = "\<lparr>ex_root = out_root,
               ex_name = arg_name a @ ''_'' @ hms_tag (trunc (q + of_int pos / 1000))
                         @ ''.'' @ arg_force_format a,
               ex_pos = pos, ex_nxt = ?nxt\<rparr>"
    have smaller: "nat (wlen - ?nxt) < nat (wlen - pos)"
      using True assms by auto
    show ?thesis
    proof (cases "arg_drop_last a \<and> ?nxt - pos < chunk_ms")
      case True
      then have "chunk_loop a out_root (Fin q) chunk_ms wlen pos n done = Some (Inr n, done)"
        using \<open>pos < wlen\<close> by (subst chunk_loop.simps) simp
      then show ?thesis by (intro exI[of _ "[]"]) simp
    next
      case nodrop: False
      from less.hyps[OF smaller, of "n + 1" "done @ [?e]"] obtain es where
        run: "chunk_loop a out_root (Fin q) chunk_ms wlen ?nxt (n + 1) (done @ [?e])
                = Some (Inr (n + 1 + length es), (done @ [?e]) @ es)"
        and each: "\<forall>e \<in> set es. ?nxt \<le> ex_pos e \<and> ex_pos e < wlen
                  \<and> ex_name e = arg_name a @ ''_'' @ hms_tag (trunc (q + of_int (ex_pos e) / 1000))
                                 @ ''.'' @ arg_force_format a"
        and srt: "sorted_wrt (\<lambda>e e'. ex_pos e + chunk_ms \<le> ex_pos e') es"
        by blast
      have step: "chunk_loop a out_root (Fin q) chunk_ms wlen pos n done
                    = chunk_loop a out_root (Fin q) chunk_ms wlen ?nxt (n + 1) (done @ [?e])"
        using True nodrop by (subst chunk_loop.simps) (auto simp: hms_from_seconds_def)
      have far: "pos + chunk_ms \<le> ex_pos e'" if "e' \<in> set es" for e'
      proof -
        from each that have "?nxt \<le> ex_pos e'" "ex_pos e' < wlen" by auto
        then show ?thesis by (auto simp: min_def split: if_splits)
      qed
      have "chunk_loop a out_root (Fin q) chunk_ms wlen pos n done
              = Some (Inr (n + length (?e # es)), done @ (?e # es))"
        using step run by simp
      moreover have "\<forall>e \<in> set (?e # es). pos \<le> ex_pos e \<and> ex_pos e < wlen
                  \<and> ex_name e = arg_name a @ ''_'' @ hms_tag (trunc (q + of_int (ex_pos e) / 1000))
                                 @ ''.'' @ arg_force_format a"
        using each True far assms by fastforce
      moreover have "sorted_wrt (\<lambda>e e'. ex_pos e + chunk_ms \<le> ex_pos e') (?e # es)"
        using srt far by simp
      ultimately show ?thesis by blast
    qed
  qed
qed

lemma trunc_nonneg: "0 \<le> x \<Longrightarrow> trunc x = \<lfloor>x\<rfloor>"
  by (simp add: trunc_def)

lemma tag_second_advances:
  assumes "0 \<le> q" "0 \<le> p" "1000 \<le> c" "p + c \<le> p'"
  shows "trunc (q + of_int p / 1000) < trunc (q + of_int p' / 1000)"
proof -
  let ?x = "q + of_int p / 1000" and ?y = "q + of_int p' / 1000"
  have "of_int p + (1000::rat) \<le> of_int p'"
    using assms(3,4) by (metis add_mono_thms_linordered_semiring(2) of_int_le_iff of_int_add of_int_numeral order_trans)
  then have "?x + 1 \<le> ?y" by (simp add: field_simps)
  then have "\<lfloor>?x + 1\<rfloor> \<le> \<lfloor>?y\<rfloor>" by (rule floor_mono)
  then have "\<lfloor>?x\<rfloor> < \<lfloor>?y\<rfloor>" by simp
  moreover have "0 \<le> ?x" "0 \<le> ?y" using assms by auto
  ultimately show ?thesis by (simp add: trunc_nonneg)
qed

lemma distinct_map_if_pairwise_differs:
  "sorted_wrt (\<lambda>x y. f x \<noteq> f y) xs \<Longrightarrow> distinct (map f xs)"
  by (induction xs) auto

lemma trunc_nonneg_ge: "0 \<le> x \<Longrightarrow> 0 \<le> trunc x"
  by (simp add: trunc_def)

lemma hms_half: "hms_from_seconds (Fin (1 / 2)) = Inr ''00h00m00s''" by code_simp
lemma hms_minus_half: "hms_from_seconds (Fin (- (1 / 2))) = Inr ''00h00m00s''" by code_simp
lemma parse_1: "parse_hms_or_seconds ''1'' = Inr (Fin 1)" by code_simp
lemma parse_2: "parse_hms_or_seconds ''2'' = Inr (Fin 2)" by code_simp
lemma parse_minus_half: "parse_hms_or_seconds ''0:-0.5'' = Inr (Fin (- (1 / 2)))" by code_simp
lemma round_half_even_neg_numeral [simp]: "round_half_even (- numeral k) = - numeral k"
  using round_half_even_int[of "- numeral k"] by simp

lemma round_500: "round_half_even (1000 / 2) = 500" by code_simp
lemma round_m500: "round_half_even (- (1000 / 2)) = - 500" by code_simp

text \<open>
  Claim C4 as stated fails. With \<open>--chunk 0.5\<close> the chunks at 0 ms and 500 ms of a window
  starting at second 0 both get the tag \<open>00h00m00s\<close>; with the start \<open>0:-0.5\<close>, which parses
  to -0.5 s, and \<open>--chunk 1\<close>, the chunks at 0 ms and 1000 ms do, since \<open>int\<close> truncates
  -0.5 and 0.5 to 0. In both runs the two exports share a file name.
\<close>

theorem chunk_tags_repeat:
  "map_option (\<lambda>(r, es). (r, map ex_name es))
     (main (exact_env 60000) (slice_args ''0'' ''1'' (Fin (1 / 2)) False)) =
     Some (Inr 2, [''src_00h00m00s.wav'', ''src_00h00m00s.wav'']) \<and>
   map_option (\<lambda>(r, es). (r, map ex_name es))
     (main (exact_env 60000) (slice_args ''0:-0.5'' ''2'' (Fin 1) False)) =
     Some (Inr 2, [''src_00h00m00s.wav'', ''src_00h00m00s.wav''])"
  by (simp add: main_def exact_env_def slice_args_def parse_0 parse_1 parse_2 parse_minus_half
      chunk_loop.simps os_path_join_def hms_0 hms_half hms_minus_half round_500 round_m500)

text \<open>
  Claim C4, amended. For a start time that is not negative and a chunk of at least one
  second (\<open>chunk_ms \<ge> 1000\<close>), for every window length: the loop terminates, every exported
  name is the prefix, the tag of the second \<open>int(start_sec + pos / 1000)\<close> and the format;
  that second increases strictly along the exports, and no two exports share a name.
  Arithmetic is exact.
\<close>

theorem chunk_tags_strictly_increasing:
  assumes "0 \<le> q" and "1000 \<le> chunk_ms"
  shows "\<exists>k es. chunk_loop a out_root (Fin q) chunk_ms wlen 0 0 [] = Some (Inr k, es)
           \<and> (\<forall>e \<in> set es. ex_name e = arg_name a @ ''_''
                   @ hms_tag (trunc (q + of_int (ex_pos e) / 1000)) @ ''.'' @ arg_force_format a)
           \<and> sorted_wrt (<) (map (\<lambda>e. trunc (q + of_int (ex_pos e) / 1000)) es)
           \<and> distinct (map ex_name es)"
proof -
  let ?sec = "\<lambda>e. trunc (q + of_int (ex_pos e) / 1000)"
  have c1: "1 \<le> chunk_ms" using assms(2) by simp
  from chunk_loop_exports[OF c1, of a out_root q wlen 0 0 "[]"] obtain es where
    run: "chunk_loop a out_root (Fin q) chunk_ms wlen 0 0 [] = Some (Inr (0 + length es), [] @ es)"
    and each: "\<forall>e \<in> set es. 0 \<le> ex_pos e \<and> ex_pos e < wlen
                  \<and> ex_name e = arg_name a @ ''_'' @ hms_tag (?sec e) @ ''.'' @ arg_force_format a"
    and srt: "sorted_wrt (\<lambda>e e'. ex_pos e + chunk_ms \<le> ex_pos e') es"
    by blast
  have secs: "sorted_wrt (\<lambda>e e'. ?sec e < ?sec e') es"
  proof (rule sorted_wrt_mono_rel[OF _ srt])
    fix e e' assume "e \<in> set es" "e' \<in> set es" "ex_pos e + chunk_ms \<le> ex_pos e'"
    then show "?sec e < ?sec e'"
      using each tag_second_advances[OF assms(1) _ assms(2)] by blast
  qed
  have names: "sorted_wrt (\<lambda>e e'. ex_name e \<noteq> ex_name e') es"
  proof (rule sorted_wrt_mono_rel[OF _ secs])
    fix e e' assume mem: "e \<in> set es" "e' \<in> set es" and lt: "?sec e < ?sec e'"
    have nn: "0 \<le> ?sec e" "0 \<le> ?sec e'"
      using each mem assms(1) by (auto intro!: trunc_nonneg_ge)
    show "ex_name e \<noteq> ex_name e'"
    proof
      assume "ex_name e = ex_name e'"
      then have "hms_tag (?sec e) = hms_tag (?sec e')" using each mem by simp
      from hms_tag_inj[OF nn this] lt show False by simp
    qed
  qed
  have "sorted_wrt (<) (map ?sec es)" using secs by (simp add: sorted_wrt_map)
  moreover have "distinct (map ex_name es)"
    using names by (rule distinct_map_if_pairwise_differs)
  ultimately show ?thesis using run each by auto
qed

theorem chunk_tags_strictly_increasing_witness:
  "(0::rat) \<le> 0 \<and> (1000::int) \<le> 15000 \<and>
   (\<exists>k es. chunk_loop (slice_args ''0'' ''40'' (Fin 15) False) ''dataset/src'' (Fin 0) 15000 40000 0 0 []
              = Some (Inr k, es) \<and> distinct (map ex_name es))"
  using chunk_tags_strictly_increasing[of 0 15000 "slice_args ''0'' ''40'' (Fin 15) False"
          "''dataset/src''" 40000]
  by auto


section \<open>Properties of \<open>parse_hms_or_seconds\<close>\<close>










lemma digit_chars:
  assumes "is_digit c"
  shows "c \<noteq> CHR ''.''" "c \<noteq> CHR ''-''" "c \<noteq> CHR ''+''" "\<not> is_exp_mark c"
    "c \<noteq> CHR ''i''" "c \<noteq> CHR ''n''" "c \<noteq> CHR '':''" "c \<noteq> newline"
  using assms by (auto simp: is_digit_def is_exp_mark_def newline_def)





lemma split_on_none: "c \<notin> set s \<Longrightarrow> split_on c s = [s]"
  by (induction s) auto

lemma split_on_length: "length (split_on c s) = Suc (length (filter (\<lambda>x. x = c) s))"
  by (induction s) (auto split: list.splits)

lemma split_on_single: "split_on c s = [p] \<Longrightarrow> c \<notin> set s"
proof -
  assume "split_on c s = [p]"
  then have "length (filter (\<lambda>x. x = c) s) = 0"
    using split_on_length[of c s] by simp
  then have "filter (\<lambda>x. x = c) s = []" by simp
  then show ?thesis by (auto simp: filter_empty_conv)
qed

lemma match_seconds_cases:
  assumes "match_seconds s"
  obtains (whole) "takeWhile is_digit s \<noteq> []" "at_end (dropWhile is_digit s)"
  | (frac) r' where "takeWhile is_digit s \<noteq> []" "dropWhile is_digit s = CHR ''.'' # r'"
      "takeWhile is_digit r' \<noteq> []" "at_end (dropWhile is_digit r')"
proof -
  let ?r = "dropWhile is_digit s"
  from assms have ds: "takeWhile is_digit s \<noteq> []"
    and alt: "at_end ?r \<or>
       (case ?r of [] \<Rightarrow> False
        | c # r' \<Rightarrow> c = CHR ''.'' \<and> takeWhile is_digit r' \<noteq> [] \<and> at_end (dropWhile is_digit r'))"
    unfolding match_seconds_def Let_def by blast+
  show thesis
  proof (cases "at_end ?r")
    case True
    with ds show thesis by (rule whole)
  next
    case False
    with alt have c: "case ?r of [] \<Rightarrow> False
        | c # r' \<Rightarrow> c = CHR ''.'' \<and> takeWhile is_digit r' \<noteq> [] \<and> at_end (dropWhile is_digit r')"
      by blast
    show thesis
    proof (cases ?r)
      case Nil
      from c show thesis unfolding Nil by simp
    next
      case (Cons c' r')
      from c have "c' = CHR ''.'' \<and> takeWhile is_digit r' \<noteq> [] \<and> at_end (dropWhile is_digit r')"
        unfolding Cons by simp
      then show thesis using frac[of r'] ds Cons by blast
    qed
  qed
qed

lemma at_end_chars: "at_end r \<Longrightarrow> \<forall>c \<in> set r. c = newline"
  unfolding at_end_def by (elim disjE) simp_all

lemma takeWhile_digit_chars: "\<forall>c \<in> set (takeWhile is_digit s). is_digit c"
  by (auto dest: set_takeWhileD)

lemma set_take_drop_digits: "set s = set (takeWhile is_digit s) \<union> set (dropWhile is_digit s)"
  by (metis set_append takeWhile_dropWhile_id)

lemma match_seconds_chars:
  assumes "match_seconds s"
  shows "\<forall>c \<in> set s. is_digit c \<or> c = CHR ''.'' \<or> c = newline"
  using assms
proof (cases rule: match_seconds_cases)
  case whole
  show ?thesis
    using set_take_drop_digits[of s] takeWhile_digit_chars[of s] at_end_chars[OF whole(2)]
    by blast
next
  case (frac r')
  have "\<forall>c \<in> set r'. is_digit c \<or> c = newline"
    using set_take_drop_digits[of r'] takeWhile_digit_chars[of r'] at_end_chars[OF frac(4)]
    by blast
  moreover have "set (dropWhile is_digit s) = insert (CHR ''.'') (set r')"
    unfolding frac(2) by simp
  ultimately show ?thesis
    using set_take_drop_digits[of s] takeWhile_digit_chars[of s] by blast
qed

lemma match_seconds_no_colon: "match_seconds s \<Longrightarrow> split_on (CHR '':'') s = [s]"
proof (rule split_on_none)
  assume "match_seconds s"
  from match_seconds_chars[OF this] digit_chars(7) show "CHR '':'' \<notin> set s"
    by (auto simp: newline_def)
qed






















section \<open>Properties of \<open>normalize\<close>\<close>






section \<open>Properties of \<open>robust_load_audio\<close>\<close>

lemma find_from_found:
  "find_from sub blob i = int k \<Longrightarrow> i \<le> k \<and> prefix sub (drop (k - i) blob)"
proof (induction blob arbitrary: i)
  case Nil
  then show ?case by (auto split: if_splits)
next
  case (Cons x xs)
  show ?case
  proof (cases "prefix sub (x # xs)")
    case True
    then show ?thesis using Cons.prems by simp
  next
    case False
    then have "find_from sub xs (Suc i) = int k" using Cons.prems by simp
    from Cons.IH[OF this] have "Suc i \<le> k" "prefix sub (drop (k - Suc i) xs)" by simp_all
    then show ?thesis by (simp add: Suc_diff_le drop_Cons')
  qed
qed

lemma bytes_find_found:
  assumes "0 \<le> bytes_find blob sub"
  shows "prefix sub (drop (nat (bytes_find blob sub)) blob)"
proof -
  have "find_from sub blob 0 = int (nat (bytes_find blob sub))"
    using assms by (simp add: bytes_find_def)
  from find_from_found[OF this] show ?thesis by simp
qed

lemma find_from_missing:
  "find_from sub blob i = - 1 \<Longrightarrow> \<not> prefix sub (drop j blob)"
proof (induction blob arbitrary: i j)
  case Nil
  then show ?case by (auto split: if_splits)
next
  case (Cons x xs)
  have np: "\<not> prefix sub (x # xs)" using Cons.prems by (auto split: if_splits)
  then have rec: "find_from sub xs (Suc i) = - 1" using Cons.prems by simp
  show ?case
  proof (cases j)
    case 0
    then show ?thesis using np by simp
  next
    case (Suc j')
    then show ?thesis using Cons.IH[OF rec, of j'] by simp
  qed
qed


lemma trimmed_path_differs: "trimmed_path_of p \<noteq> p"
  by (simp add: trimmed_path_of_def)

lemma header_repair_skip:
  assumes "fls p = None \<or> (\<exists>blob. fls p = Some blob \<and> bytes_find blob ''RIFF'' < 0)"
  shows "header_repair cd fls p = (None, fls, [Ev_read p])"
  using assms by (auto simp: header_repair_def Let_def)

lemma header_repair_attempt:
  assumes "fls p = Some blob" "0 \<le> bytes_find blob ''RIFF''"
  shows "header_repair cd fls p =
           (from_wav cd (drop (nat (bytes_find blob ''RIFF'')) blob),
            fls(trimmed_path_of p := None),
            [Ev_read p,
             Ev_write (trimmed_path_of p) (drop (nat (bytes_find blob ''RIFF'')) blob),
             Ev_from_wav (trimmed_path_of p), Ev_remove (trimmed_path_of p)])"
  using assms
  by (simp add: header_repair_def Let_def AudioSegment_from_wav_def remove_quietly_def
      os_remove_def split: option.splits)

lemma robust_load_direct:
  assumes "AudioSegment_from_wav cd fls p = Inr seg"
  shows "robust_load_audio cd fls p sr ch w = (Inr seg, fls, [Ev_from_wav p])"
  using assms by (simp add: robust_load_audio_def)

lemma robust_load_skip:
  assumes "AudioSegment_from_wav cd fls p = Inl e"
    and "fls p = None \<or> (\<exists>blob. fls p = Some blob \<and> bytes_find blob ''RIFF'' < 0)"
  shows "robust_load_audio cd fls p sr ch w =
           (AudioSegment_from_raw cd fls p w sr ch, fls, [Ev_from_wav p, Ev_read p, Ev_from_raw p])"
  using assms(1) by (simp add: robust_load_audio_def header_repair_skip[where fls=fls and p=p, OF assms(2)])

lemma from_raw_after_cleanup:
  "AudioSegment_from_raw cd (fls(trimmed_path_of p := None)) p w sr ch
     = AudioSegment_from_raw cd fls p w sr ch"
  using trimmed_path_differs[of p] by (simp add: AudioSegment_from_raw_def)

lemma robust_load_attempt:
  assumes "AudioSegment_from_wav cd fls p = Inl e"
    and "fls p = Some blob" "0 \<le> bytes_find blob ''RIFF''"
  shows "robust_load_audio cd fls p sr ch w =
           (case from_wav cd (drop (nat (bytes_find blob ''RIFF'')) blob) of
              Some seg \<Rightarrow>
                (Inr seg, fls(trimmed_path_of p := None),
                 [Ev_from_wav p, Ev_read p,
                  Ev_write (trimmed_path_of p) (drop (nat (bytes_find blob ''RIFF'')) blob),
                  Ev_from_wav (trimmed_path_of p), Ev_remove (trimmed_path_of p)])
            | None \<Rightarrow>
                (AudioSegment_from_raw cd fls p w sr ch, fls(trimmed_path_of p := None),
                 [Ev_from_wav p, Ev_read p,
                  Ev_write (trimmed_path_of p) (drop (nat (bytes_find blob ''RIFF'')) blob),
                  Ev_from_wav (trimmed_path_of p), Ev_remove (trimmed_path_of p),
                  Ev_from_raw p]))"
  using assms(1)
  by (simp add: robust_load_audio_def header_repair_attempt[where fls=fls and p=p, OF assms(2,3)]
      from_raw_after_cleanup split: option.splits)

lemma robust_load_cases:
  obtains (direct) seg where "AudioSegment_from_wav cd fls p = Inr seg"
  | (skip) e where "AudioSegment_from_wav cd fls p = Inl e"
      "fls p = None \<or> (\<exists>blob. fls p = Some blob \<and> bytes_find blob ''RIFF'' < 0)"
  | (attempt) e blob where "AudioSegment_from_wav cd fls p = Inl e"
      "fls p = Some blob" "0 \<le> bytes_find blob ''RIFF''"
proof (cases "AudioSegment_from_wav cd fls p")
  case (Inr seg)
  then show ?thesis by (rule direct)
next
  case (Inl e)
  show ?thesis
  proof (cases "fls p")
    case None
    then show ?thesis using skip[where e=e] Inl by blast
  next
    case (Some blob)
    show ?thesis
    proof (cases "0 \<le> bytes_find blob ''RIFF''")
      case True
      with Inl Some show ?thesis using attempt[where e=e and blob=blob] by blast
    next
      case False
      then have "bytes_find blob ''RIFF'' < 0" by simp
      then show ?thesis using skip[where e=e] Inl Some by blast
    qed
  qed
qed


lemmas loader_defs = robust_load_audio_def header_repair_def Let_def AudioSegment_from_wav_def
  AudioSegment_from_raw_def bytes_find_def trimmed_path_of_def remove_quietly_def os_remove_def




text \<open>
  Claim C2 as stated fails: tier 2 is also attempted when the signature is found at offset
  0. A file that starts with \<open>RIFF\<close> and does not decode is copied whole to the temporary
  path and decoded again; line 49 tests \<open>riff_pos >= 0\<close>.
\<close>

theorem header_repair_at_offset_zero:
  "bytes_find ''RIFFxx'' ''RIFF'' = 0 \<and>
   fst (robust_load_audio deaf_codec (Map.empty(''a.wav'' \<mapsto> ''RIFFxx'')) ''a.wav'' 32000 1 2)
     = Inl CouldntDecodeError \<and>
   snd (snd (robust_load_audio deaf_codec (Map.empty(''a.wav'' \<mapsto> ''RIFFxx'')) ''a.wav'' 32000 1 2))
     = [Ev_from_wav ''a.wav'', Ev_read ''a.wav'',
        Ev_write ''a.wav.__trimmed__.wav'' ''RIFFxx'',
        Ev_from_wav ''a.wav.__trimmed__.wav'', Ev_remove ''a.wav.__trimmed__.wav'',
        Ev_from_raw ''a.wav'']"
  by (simp add: loader_defs deaf_codec_def)

text \<open>
  Claim C2, amended. Tier 2 is attempted (the temporary file is written) exactly when the
  direct decode failed and the signature is found in the bytes of the file at an offset
  \<open>k \<ge> 0\<close>. When it is attempted, the bytes from \<open>k\<close> onward, which start with the
  signature, are written to the temporary path, the structured decode is retried on that
  file and the file is removed; the retried decode decides the outcome: its segment is
  returned, or tier 3 runs.
\<close>

theorem header_repair_attempted_iff:
  assumes "robust_load_audio cd fls p sr ch w = (res, fls', tr)"
  shows "((\<exists>b. Ev_write (trimmed_path_of p) b \<in> set tr) =
            (isl (AudioSegment_from_wav cd fls p) \<and>
             (\<exists>blob. fls p = Some blob \<and> 0 \<le> bytes_find blob ''RIFF''))) \<and>
         (\<forall>blob. isl (AudioSegment_from_wav cd fls p) \<and> fls p = Some blob
                  \<and> 0 \<le> bytes_find blob ''RIFF'' \<longrightarrow>
            prefix ''RIFF'' (drop (nat (bytes_find blob ''RIFF'')) blob) \<and>
            take 5 tr = [Ev_from_wav p, Ev_read p,
                         Ev_write (trimmed_path_of p) (drop (nat (bytes_find blob ''RIFF'')) blob),
                         Ev_from_wav (trimmed_path_of p), Ev_remove (trimmed_path_of p)] \<and>
            (case from_wav cd (drop (nat (bytes_find blob ''RIFF'')) blob) of
               Some seg \<Rightarrow> res = Inr seg
             | None \<Rightarrow> res = AudioSegment_from_raw cd fls p w sr ch))"
proof (cases cd fls p rule: robust_load_cases)
  case (direct seg)
  have ok: "\<not> isl (AudioSegment_from_wav cd fls p)" using direct by simp
  have "tr = [Ev_from_wav p]"
    using assms unfolding robust_load_direct[where fls=fls and p=p, OF direct] by simp
  then show ?thesis using ok by simp
next
  case (skip e)
  have no: "\<not> (\<exists>blob. fls p = Some blob \<and> 0 \<le> bytes_find blob ''RIFF'')"
    using skip(2) by auto
  have "tr = [Ev_from_wav p, Ev_read p, Ev_from_raw p]"
    using assms unfolding robust_load_skip[where fls=fls and p=p, OF skip] by simp
  then show ?thesis using no by auto
next
  case (attempt e blob)
  have found: "prefix ''RIFF'' (drop (nat (bytes_find blob ''RIFF'')) blob)"
    by (rule bytes_find_found[OF attempt(3)])
  from assms show ?thesis
    unfolding robust_load_attempt[where fls=fls and p=p, OF attempt]
    using attempt found by (auto split: option.splits)
qed


theorem header_repair_attempted_iff_witness:
  "isl (AudioSegment_from_wav riff_codec (Map.empty(''a.wav'' \<mapsto> ''xxRIFFdata'')) ''a.wav'') \<and>
   bytes_find ''xxRIFFdata'' ''RIFF'' = 2 \<and>
   (\<exists>b. Ev_write (trimmed_path_of ''a.wav'') b
          \<in> set (snd (snd (robust_load_audio riff_codec (Map.empty(''a.wav'' \<mapsto> ''xxRIFFdata''))
                              ''a.wav'' 32000 1 2)))) \<and>
   fst (robust_load_audio riff_codec (Map.empty(''a.wav'' \<mapsto> ''xxRIFFdata'')) ''a.wav'' 32000 1 2)
     = Inr \<lparr>frame_rate = 32000, channels = 1, sample_width = 2, raw_data = ''data''\<rparr>"
proof -
  let ?F = "Map.empty(''a.wav'' \<mapsto> ''xxRIFFdata'')"
  let ?run = "robust_load_audio riff_codec ?F ''a.wav'' 32000 1 2"
  have d: "isl (AudioSegment_from_wav riff_codec ?F ''a.wav'')"
    by (simp add: AudioSegment_from_wav_def riff_codec_def)
  have k: "bytes_find ''xxRIFFdata'' ''RIFF'' = 2" by (simp add: bytes_find_def)
  have f: "?F ''a.wav'' = Some ''xxRIFFdata''" by simp
  have dec: "from_wav riff_codec (drop (nat (bytes_find ''xxRIFFdata'' ''RIFF'')) ''xxRIFFdata'')
             = Some \<lparr>frame_rate = 32000, channels = 1, sample_width = 2, raw_data = ''data''\<rparr>"
    by (simp add: k riff_codec_def)
  have e: "?run = (fst ?run, fst (snd ?run), snd (snd ?run))" by simp
  have w: "\<exists>b. Ev_write (trimmed_path_of ''a.wav'') b \<in> set (snd (snd ?run))"
    using header_repair_attempted_iff[OF e] d f k by auto
  have r: "fst ?run = Inr \<lparr>frame_rate = 32000, channels = 1, sample_width = 2, raw_data = ''data''\<rparr>"
    using header_repair_attempted_iff[OF e] d f k dec by (auto split: option.splits)
  show ?thesis using d k w r by blast
qed

section \<open>The name of a merged group\<close>

lemma end_tag_of_match: "match_pattern f = Some (date_str, time_str) \<Longrightarrow> end_tag_of f = time_str"
  by (simp add: end_tag_of_def)

lemma out_name_of_last:
  "g \<noteq> [] \<Longrightarrow>
   out_name_of g k = fst (splitext (g ! 0)) @ ''_TO_'' @ end_tag_of (last g) @ ''.wav''"
  by (simp add: out_name_of_def Let_def last_conv_nth)

lemma last_filter_kept:
  assumes "g \<noteq> []" "P (last g)"
  shows "last (filter P g) = last g"
proof -
  have "g = butlast g @ [last g]" using assms(1) by simp
  then have "filter P g = filter P (butlast g) @ [last g]"
    using assms(2) by (metis filter.simps(1,2) filter_append)
  then show ?thesis by simp
qed

lemma spec_out_name_last:
  assumes "g \<noteq> []" "last g \<notin> set failed"
  shows "spec_out_name g failed = fst (splitext (g ! 0)) @ ''_TO_'' @ end_tag_of (last g) @ ''.wav''"
  using last_filter_kept[of g "\<lambda>f. f \<notin> set failed", OF assms]
  by (simp add: spec_out_name_def Let_def)

lemma load_two:
  "snd (load_group riff_codec attribute_pydub
          [''SBW1520_20160813_000000.wav'', ''SBW1520_20160813_000100.wav'']
          (Map.empty(''Data/SBW1520_20160813_000000.wav'' \<mapsto> ''RIFFdata''), [], 0, []))
     = ([\<lparr>frame_rate = 32000, channels = 1, sample_width = 2, raw_data = ''data''\<rparr>], 1,
        [''SBW1520_20160813_000100.wav''])"
  by (simp add: robust_load_audio_def header_repair_def Let_def AudioSegment_from_wav_def
      AudioSegment_from_raw_def riff_codec_def input_dir_def os_path_join_def normalize_def
      TARGET_SR_def TARGET_CHANNELS_def TARGET_WIDTH_def)

lemma name_two:
  "out_name_of [''SBW1520_20160813_000000.wav'', ''SBW1520_20160813_000100.wav''] (Suc 0)
     = ''SBW1520_20160813_000000_TO_000100.wav''"
  by code_simp

lemma load_both:
  "snd (load_group riff_codec attribute_pydub
          [''SBW1520_20160813_000000.wav'', ''SBW1520_20160813_000100.wav'']
          (Map.empty(''Data/SBW1520_20160813_000000.wav'' \<mapsto> ''RIFFdata'',
                     ''Data/SBW1520_20160813_000100.wav'' \<mapsto> ''RIFFmore''), [], 0, []))
     = ([\<lparr>frame_rate = 32000, channels = 1, sample_width = 2, raw_data = ''data''\<rparr>,
         \<lparr>frame_rate = 32000, channels = 1, sample_width = 2, raw_data = ''more''\<rparr>], 2, [])"
  by (simp add: robust_load_audio_def header_repair_def Let_def AudioSegment_from_wav_def
      AudioSegment_from_raw_def riff_codec_def input_dir_def os_path_join_def normalize_def
      TARGET_SR_def TARGET_CHANNELS_def TARGET_WIDTH_def)

text \<open>
  Claim C1 as stated fails. A group of two files of which the first loads and the second
  cannot be read is exported under \<open>..._000000_TO_000100.wav\<close>: the end tag is the time
  portion of the second file, which is on the failure list, while the rule of the claim
  gives \<open>..._000000_TO_000000.wav\<close>, from the last file that loaded.
\<close>

theorem export_name_from_failed_file:
  "map fst (exported (process_group riff_codec attribute_pydub
       [''SBW1520_20160813_000000.wav'', ''SBW1520_20160813_000100.wav'']
       \<lparr>files = Map.empty(''Data/SBW1520_20160813_000000.wav'' \<mapsto> ''RIFFdata''),
        failed_files = [], group_index = 0, exported = []\<rparr>))
     = [''combinedall/SBW1520_20160813_000000_TO_000100.wav''] \<and>
   failed_files (process_group riff_codec attribute_pydub
       [''SBW1520_20160813_000000.wav'', ''SBW1520_20160813_000100.wav'']
       \<lparr>files = Map.empty(''Data/SBW1520_20160813_000000.wav'' \<mapsto> ''RIFFdata''),
        failed_files = [], group_index = 0, exported = []\<rparr>)
     = [''SBW1520_20160813_000100.wav''] \<and>
   spec_out_name [''SBW1520_20160813_000000.wav'', ''SBW1520_20160813_000100.wav'']
       [''SBW1520_20160813_000100.wav'']
     = ''SBW1520_20160813_000000_TO_000000.wav''"
proof -
  have s: "spec_out_name [''SBW1520_20160813_000000.wav'', ''SBW1520_20160813_000100.wav'']
             [''SBW1520_20160813_000100.wav''] = ''SBW1520_20160813_000000_TO_000000.wav''"
    by code_simp
  show ?thesis
    using load_two s
    by (simp add: process_group_def case_prod_beta name_two output_dir_def os_path_join_def
        del: load_group.simps)
qed


text \<open>
  Claim C1, amended. For every exported group the output file name is the first file's
  base name joined by \<open>_TO_\<close> to the time portion of the last file of the group in sort
  order (line 142 selects \<open>group_files[-1]\<close> in both branches). When that last file is not on
  the failure list, it is the last successfully processed file, and the name is the one
  the claim describes.
\<close>

theorem export_name_of_group:
  assumes "process_group cd lib g st = st'" and "exported st' \<noteq> exported st"
  shows "\<exists>combined.
           exported st' = exported st @
             [(os_path_join output_dir
                 (fst (splitext (g ! 0)) @ ''_TO_'' @ end_tag_of (last g) @ ''.wav''), combined)]
           \<and> (last g \<notin> set (failed_files st') \<longrightarrow>
                fst (splitext (g ! 0)) @ ''_TO_'' @ end_tag_of (last g) @ ''.wav''
                  = spec_out_name g (failed_files st'))"
proof -
  have ne: "g \<noteq> []" using assms by (auto simp: process_group_def)
  obtain fls' combined ok_count failed' where
    l: "load_group cd lib g (files st, [], 0, failed_files st) = (fls', combined, ok_count, failed')"
    by (metis prod_cases4)
  have ok: "ok_count \<noteq> 0"
    using assms ne l by (auto simp: process_group_def Let_def split: if_splits)
  have "exported st' = exported st @ [(os_path_join output_dir (out_name_of g ok_count), combined)]"
    using assms(1) ne l ok by (auto simp: process_group_def Let_def)
  then have "exported st' = exported st @
             [(os_path_join output_dir
                 (fst (splitext (g ! 0)) @ ''_TO_'' @ end_tag_of (last g) @ ''.wav''), combined)]"
    by (simp add: out_name_of_last[OF ne])
  then show ?thesis using spec_out_name_last[OF ne] by auto
qed


theorem export_name_of_group_witness:
  "exported (process_group riff_codec attribute_pydub
       [''SBW1520_20160813_000000.wav'', ''SBW1520_20160813_000100.wav'']
       \<lparr>files = Map.empty(''Data/SBW1520_20160813_000000.wav'' \<mapsto> ''RIFFdata'',
                           ''Data/SBW1520_20160813_000100.wav'' \<mapsto> ''RIFFmore''),
        failed_files = [], group_index = 0, exported = []\<rparr>) \<noteq> [] \<and>
   failed_files (process_group riff_codec attribute_pydub
       [''SBW1520_20160813_000000.wav'', ''SBW1520_20160813_000100.wav'']
       \<lparr>files = Map.empty(''Data/SBW1520_20160813_000000.wav'' \<mapsto> ''RIFFdata'',
                           ''Data/SBW1520_20160813_000100.wav'' \<mapsto> ''RIFFmore''),
        failed_files = [], group_index = 0, exported = []\<rparr>) = [] \<and>
   map fst (exported (process_group riff_codec attribute_pydub
       [''SBW1520_20160813_000000.wav'', ''SBW1520_20160813_000100.wav'']
       \<lparr>files = Map.empty(''Data/SBW1520_20160813_000000.wav'' \<mapsto> ''RIFFdata'',
                           ''Data/SBW1520_20160813_000100.wav'' \<mapsto> ''RIFFmore''),
        failed_files = [], group_index = 0, exported = []\<rparr>))
     = [os_path_join output_dir
          (spec_out_name [''SBW1520_20160813_000000.wav'', ''SBW1520_20160813_000100.wav''] [])]"
proof -
  let ?g = "[''SBW1520_20160813_000000.wav'', ''SBW1520_20160813_000100.wav'']"
  let ?st = "\<lparr>files = Map.empty(''Data/SBW1520_20160813_000000.wav'' \<mapsto> ''RIFFdata'',
                                 ''Data/SBW1520_20160813_000100.wav'' \<mapsto> ''RIFFmore''),
              failed_files = [], group_index = 0, exported = []\<rparr>"
  let ?st' = "process_group riff_codec attribute_pydub ?g ?st"
  have ex: "exported ?st' \<noteq> exported ?st"
    using load_both by (simp add: process_group_def case_prod_beta del: load_group.simps)
  have fl: "failed_files ?st' = []"
    using load_both by (simp add: process_group_def case_prod_beta del: load_group.simps)
  from export_name_of_group[OF refl ex] fl
  have "map fst (exported ?st') = [os_path_join output_dir (spec_out_name ?g [])]"
    by auto
  then show ?thesis using ex fl by simp
qed


end
